theory Spec2Isabelle
  imports Main "HOL-Library.Word" "HOL-Library.Multiset" "HOL-Library.AList"
begin

section \<open>Values shared by the loop and the pollers\<close>

type_synonym byte = "8 word"

text \<open>\<^verbatim>\<open>time.Time\<close> and \<^verbatim>\<open>time.Duration\<close> in nanoseconds. The zero \<^verbatim>\<open>Time\<close> is 0.\<close>

type_synonym time = int
type_synonym duration = int

text \<open>\<^verbatim>\<open>type Action int\<close> with \<^verbatim>\<open>None = iota\<close>, \<^verbatim>\<open>Close\<close>, \<^verbatim>\<open>Shutdown\<close>.\<close>

datatype Action = None_Action | Close | Shutdown

fun Action_int :: "Action \<Rightarrow> int" where
  "Action_int None_Action = 0"
| "Action_int Close = 1"
| "Action_int Shutdown = 2"

datatype errno = EAGAIN | EINTR | Errno nat

text \<open>Run-time panics of the Go code: \<^verbatim>\<open>panic(err)\<close>, a field access through a nil
  pointer, a slice expression out of range, an index out of range.\<close>

datatype panic = PanicErr errno | NilDereference | SliceBounds | IndexRange

text \<open>A computation stops early when it panics, or when the script of kernel answers
  (below) holds no answer for the call it makes: the run goes on beyond what the script
  describes.\<close>

datatype stop = Panic panic | OffScript

datatype 'a res = Done 'a | Stop stop

definition andThen :: "'a res \<times> 'w \<Rightarrow> ('a \<Rightarrow> 'w \<Rightarrow> 'b res \<times> 'w) \<Rightarrow> 'b res \<times> 'w" where
  "andThen m k = (case m of (Done x, w) \<Rightarrow> k x w | (Stop s, w) \<Rightarrow> (Stop s, w))"

section \<open>The kernel as a script\<close>

datatype epoll_op = EPOLL_CTL_ADD | EPOLL_CTL_MOD
datatype epoll_mask = EPOLLIN | EPOLLIN_EPOLLOUT

record EpollEvent =
  Events :: epoll_mask
  Fd :: "32 word"

datatype kfilter = EVFILT_READ | EVFILT_WRITE
datatype kflags = EV_ADD | EV_DELETE

record Kevent_t =
  Ident :: "64 word"
  Filter :: kfilter
  Flags :: kflags

text \<open>Every system call whose result the code reads takes the next entry of the script:
  the returned count or descriptor with the error, and what the kernel stored in the
  buffer it was handed. \<^verbatim>\<open>time.Now()\<close> reads a \<open>RetNow\<close>.\<close>

datatype sysret =
    Ret int "errno option"
  | RetRead int "errno option" "byte list"
  | RetEpoll int "errno option" "EpollEvent list"
  | RetKevent int "errno option" "Kevent_t list"
  | RetNow time

datatype sockopt = SO_KEEPALIVE | TCP_KEEPINTVL | TCP_KEEPIDLE

datatype event =
    SysAccept int
  | SysSetsockopt int sockopt int
  | SysSetNonblock int
  | SysClose int
  | SysWrite int "byte list"
  | SysRead int
  | SysEpollCtl epoll_op int EpollEvent
  | SysEpollWait int int
  | SysKevent int "Kevent_t list" "int option"
  | CbServing
  | CbOpened nat
  | CbClosed nat
  | CbPreWrite
  | CbData nat "byte list"
  | CbTick time

section \<open>Connections and the state of \<^verbatim>\<open>Serve\<close>\<close>

text \<open>\<^verbatim>\<open>type conn struct\<close>. The field \<open>write_flag\<close> is \<^verbatim>\<open>write\<close>; \<open>poll\<close> says
  whether the pointer to the poller is non-nil; \<open>out_cap\<close> is \<^verbatim>\<open>cap(c.out)\<close>. The
  fields \<^verbatim>\<open>ctx\<close>, \<^verbatim>\<open>raddr\<close>, \<^verbatim>\<open>laddr\<close> and \<^verbatim>\<open>sa\<close> are never read by \<^verbatim>\<open>Serve\<close>,
  \<^verbatim>\<open>Write\<close> or \<^verbatim>\<open>Close\<close>.\<close>

record conn =
  write_flag :: bool
  fd :: int
  oidx :: int
  out :: "byte list"
  out_cap :: nat
  action :: Action
  poll :: bool
  saddr :: nat

text \<open>\<^verbatim>\<open>type poll struct\<close>, one constructor per build: descriptor, events array and
  \<^verbatim>\<open>evfds\<close> on Linux; descriptor, change list, events array and \<^verbatim>\<open>evfds\<close> on BSD.\<close>

datatype poller =
    Epoll int "EpollEvent list" "int list"
  | Kqueue int "Kevent_t list" "Kevent_t list" "int list"

text \<open>What \<^verbatim>\<open>Serve\<close> and the code it calls can read and change: the \<^verbatim>\<open>conn\<close> objects
  by address (\<open>nconn\<close> is the next fresh address), the map \<^verbatim>\<open>conns\<close> from descriptor to
  address, the poller, the read buffer \<^verbatim>\<open>packet\<close>, \<^verbatim>\<open>lastTick\<close> and \<^verbatim>\<open>delay\<close>, the state
  of the user's closures, the rest of the script, the descriptors the process holds
  open, and the log of system calls and callbacks (newest first). \<open>growslice\<close> is the
  capacity the Go run time gives a slice that \<^verbatim>\<open>append\<close> has to grow, from the old
  capacity and the length needed.\<close>

record 'u world =
  heap :: "nat \<Rightarrow> conn"
  nconn :: nat
  conns :: "(int \<times> nat) list"
  the_poll :: poller
  packet :: "byte list"
  lastTick :: time
  delay :: duration
  user :: 'u
  script :: "sysret list"
  open_fds :: "int set"
  trace :: "event list"
  growslice :: "nat \<Rightarrow> nat \<Rightarrow> nat"

definition log :: "event \<Rightarrow> 'u world \<Rightarrow> 'u world" where
  "log e w = w\<lparr>trace := e # trace w\<rparr>"

definition sys_ret :: "'u world \<Rightarrow> (int \<times> errno option) res \<times> 'u world" where
  "sys_ret w = (case script w of
       Ret n e # rest \<Rightarrow> (Done (n, e), w\<lparr>script := rest\<rparr>)
     | _ \<Rightarrow> (Stop OffScript, w))"

definition sys_read :: "'u world \<Rightarrow> (int \<times> errno option \<times> byte list) res \<times> 'u world" where
  "sys_read w = (case script w of
       RetRead n e bs # rest \<Rightarrow> (Done (n, e, bs), w\<lparr>script := rest\<rparr>)
     | _ \<Rightarrow> (Stop OffScript, w))"

definition sys_epoll :: "'u world \<Rightarrow> (int \<times> errno option \<times> EpollEvent list) res \<times> 'u world" where
  "sys_epoll w = (case script w of
       RetEpoll n e evs # rest \<Rightarrow> (Done (n, e, evs), w\<lparr>script := rest\<rparr>)
     | _ \<Rightarrow> (Stop OffScript, w))"

definition sys_kevent :: "'u world \<Rightarrow> (int \<times> errno option \<times> Kevent_t list) res \<times> 'u world" where
  "sys_kevent w = (case script w of
       RetKevent n e evs # rest \<Rightarrow> (Done (n, e, evs), w\<lparr>script := rest\<rparr>)
     | _ \<Rightarrow> (Stop OffScript, w))"

definition sys_now :: "'u world \<Rightarrow> time res \<times> 'u world" where
  "sys_now w = (case script w of
       RetNow t # rest \<Rightarrow> (Done t, w\<lparr>script := rest\<rparr>)
     | _ \<Rightarrow> (Stop OffScript, w))"

text \<open>The kernel fills the front of the array it was handed.\<close>

definition stored :: "'a list \<Rightarrow> 'a list \<Rightarrow> 'a list" where
  "stored new old = take (length old) (new @ drop (length new) old)"

section \<open>The pollers\<close>

definition EpollCtl :: "epoll_op \<Rightarrow> int \<Rightarrow> epoll_mask \<Rightarrow> 'u world \<Rightarrow> unit res \<times> 'u world" where
  "EpollCtl op k m w =
     andThen (sys_ret (log (SysEpollCtl op k \<lparr>Events = m, Fd = word_of_int k\<rparr>) w))
       (\<lambda>(n, e) w1. case e of
            None \<Rightarrow> (Done (), w1)
          | Some x \<Rightarrow> (Stop (Panic (PanicErr x)), w1))"

definition kchange :: "int \<Rightarrow> kflags \<Rightarrow> kfilter \<Rightarrow> 'u world \<Rightarrow> unit res \<times> 'u world" where
  "kchange k fl ft w = (case the_poll w of
       Kqueue pf ch evs evf \<Rightarrow>
         (Done (), w\<lparr>the_poll := Kqueue pf (ch @ [\<lparr>Ident = word_of_int k, Filter = ft, Flags = fl\<rparr>]) evs evf\<rparr>)
     | Epoll pf evs evf \<Rightarrow> (Done (), w))"

definition addRead :: "int \<Rightarrow> 'u world \<Rightarrow> unit res \<times> 'u world" where
  "addRead k w = (case the_poll w of
       Epoll pf evs evf \<Rightarrow> EpollCtl EPOLL_CTL_ADD k EPOLLIN w
     | Kqueue pf ch evs evf \<Rightarrow> kchange k EV_ADD EVFILT_READ w)"

definition modReadWrite :: "int \<Rightarrow> 'u world \<Rightarrow> unit res \<times> 'u world" where
  "modReadWrite k w = (case the_poll w of
       Epoll pf evs evf \<Rightarrow> EpollCtl EPOLL_CTL_MOD k EPOLLIN_EPOLLOUT w
     | Kqueue pf ch evs evf \<Rightarrow> kchange k EV_ADD EVFILT_WRITE w)"

definition modRead :: "int \<Rightarrow> 'u world \<Rightarrow> unit res \<times> 'u world" where
  "modRead k w = (case the_poll w of
       Epoll pf evs evf \<Rightarrow> EpollCtl EPOLL_CTL_MOD k EPOLLIN w
     | Kqueue pf ch evs evf \<Rightarrow> kchange k EV_DELETE EVFILT_WRITE w)"

text \<open>\<^verbatim>\<open>for i := 0; i < n; i++ { p.evfds = append(p.evfds, int(p.events[i]...)) }\<close> over
  the descriptors held by the events array: the collected list, or the index that is
  out of range with what was collected before it.\<close>

function collect :: "int \<Rightarrow> int \<Rightarrow> int list \<Rightarrow> int list \<Rightarrow> bool \<times> int list" where
  "collect i n ids evfds =
     (if i < n then
        (if 0 \<le> i \<and> nat i < length ids then collect (i + 1) n ids (evfds @ [ids ! nat i])
         else (False, evfds))
      else (True, evfds))"
  by pat_completeness auto
termination
  by (relation "measure (\<lambda>(i, n, ids, evfds). nat (n - i))") auto

declare collect.simps [simp del]

text \<open>\<^verbatim>\<open>if err != nil && err != syscall.EINTR { panic(err) }\<close>\<close>

definition wait_panics :: "errno option \<Rightarrow> errno option" where
  "wait_panics e = (case e of None \<Rightarrow> None | Some x \<Rightarrow> (if x \<noteq> EINTR then Some x else None))"

text \<open>\<^verbatim>\<open>func (p *poll) wait(timeout time.Duration) []int\<close>, Linux and BSD.\<close>

definition wait :: "duration \<Rightarrow> 'u world \<Rightarrow> int list res \<times> 'u world" where
  "wait timeout w = (case the_poll w of
       Epoll pf evs evf \<Rightarrow>
         andThen (sys_epoll (log (SysEpollWait pf
                     (if timeout \<ge> 0 then timeout div 1000000 else - 1)) w))
           (\<lambda>(n, e, new) w1.
              let evs1 = stored new evs in
              case wait_panics e of
                Some x \<Rightarrow> (Stop (Panic (PanicErr x)), w1\<lparr>the_poll := Epoll pf evs1 evf\<rparr>)
              | None \<Rightarrow>
                  (case collect 0 n (map (\<lambda>ev. sint (Fd ev)) evs1) [] of
                     (True, fds) \<Rightarrow> (Done fds, w1\<lparr>the_poll := Epoll pf evs1 fds\<rparr>)
                   | (False, fds) \<Rightarrow>
                       (Stop (Panic IndexRange), w1\<lparr>the_poll := Epoll pf evs1 fds\<rparr>)))
     | Kqueue pf ch evs evf \<Rightarrow>
         andThen (sys_kevent (log (SysKevent pf ch
                     (if timeout \<ge> 0 then Some timeout else None)) w))
           (\<lambda>(n, e, new) w1.
              let evs1 = stored new evs in
              case wait_panics e of
                Some x \<Rightarrow> (Stop (Panic (PanicErr x)), w1\<lparr>the_poll := Kqueue pf ch evs1 evf\<rparr>)
              | None \<Rightarrow>
                  (case collect 0 n (map (\<lambda>ev. sint (Ident ev)) evs1) [] of
                     (True, fds) \<Rightarrow> (Done fds, w1\<lparr>the_poll := Kqueue pf [] evs1 fds\<rparr>)
                   | (False, fds) \<Rightarrow>
                       (Stop (Panic IndexRange), w1\<lparr>the_poll := Kqueue pf [] evs1 fds\<rparr>))))"

section \<open>What user code can do\<close>

text \<open>A callback runs on the loop's thread. It cannot see the fields of a \<^verbatim>\<open>conn\<close>, only
  hold its address, so all it can do to the loop's state is a sequence of calls of
  \<^verbatim>\<open>Write\<close> and \<^verbatim>\<open>Close\<close> on connections it holds, before it returns. A callback is a
  function of the state of the user's closures that yields their new state, these
  calls, and the values returned; \<open>None\<close> is a nil callback. (The argument of
  \<^verbatim>\<open>Serving\<close>, the addresses of the listeners, is the same throughout a run.)\<close>

datatype ucall = UWrite nat "byte list" | UClose nat

record 'u Events =
  Serving :: "('u \<Rightarrow> 'u \<times> ucall list \<times> Action) option"
  Opened :: "('u \<Rightarrow> nat \<Rightarrow> 'u \<times> ucall list \<times> byte list \<times> Action) option"
  Closed :: "('u \<Rightarrow> nat \<Rightarrow> 'u \<times> ucall list \<times> Action) option"
  PreWrite :: "('u \<Rightarrow> 'u \<times> ucall list) option"
  Data :: "('u \<Rightarrow> nat \<Rightarrow> byte list \<Rightarrow> 'u \<times> ucall list \<times> byte list \<times> Action) option"
  Tick :: "('u \<Rightarrow> time \<Rightarrow> 'u \<times> ucall list \<times> duration \<times> Action) option"

definition upd :: "nat \<Rightarrow> (conn \<Rightarrow> conn) \<Rightarrow> 'u world \<Rightarrow> 'u world" where
  "upd a f w = w\<lparr>heap := (heap w)(a := f (heap w a))\<rparr>"

text \<open>\<^verbatim>\<open>c.out = append(c.out, data...)\<close>\<close>

definition append_out :: "(nat \<Rightarrow> nat \<Rightarrow> nat) \<Rightarrow> byte list \<Rightarrow> conn \<Rightarrow> conn" where
  "append_out g bs c =
     c\<lparr>out := out c @ bs,
       out_cap := (if length (out c) + length bs \<le> out_cap c then out_cap c
                   else g (out_cap c) (length (out c) + length bs))\<rparr>"

text \<open>\<^verbatim>\<open>func (c *conn) Close()\<close>\<close>

definition conn_Close :: "nat \<Rightarrow> 'u world \<Rightarrow> unit res \<times> 'u world" where
  "conn_Close a w =
     (if \<not> poll (heap w a) then (Done (), w)
      else
        let w1 = (if action (heap w a) = None_Action then upd a (\<lambda>c. c\<lparr>action := Close\<rparr>) w
                  else w)
        in if \<not> write_flag (heap w1 a) then
             andThen (modReadWrite (fd (heap w1 a)) w1)
               (\<lambda>_ w2. (Done (), upd a (\<lambda>c. c\<lparr>write_flag := True\<rparr>) w2))
           else (Done (), w1))"

text \<open>\<^verbatim>\<open>func (c *conn) Write(data []byte)\<close>\<close>

definition conn_Write :: "nat \<Rightarrow> byte list \<Rightarrow> 'u world \<Rightarrow> unit res \<times> 'u world" where
  "conn_Write a bs w =
     (if \<not> poll (heap w a) then (Done (), w)
      else if action (heap w a) = None_Action then
        let w1 = upd a (append_out (growslice w) bs) w
        in if \<not> write_flag (heap w1 a) then
             andThen (modReadWrite (fd (heap w1 a)) w1)
               (\<lambda>_ w2. (Done (), upd a (\<lambda>c. c\<lparr>write_flag := True\<rparr>) w2))
           else (Done (), w1)
      else (Done (), w))"

fun user_call :: "ucall \<Rightarrow> 'u world \<Rightarrow> unit res \<times> 'u world" where
  "user_call (UWrite a bs) w = conn_Write a bs w"
| "user_call (UClose a) w = conn_Close a w"

fun user_calls :: "ucall list \<Rightarrow> 'u world \<Rightarrow> unit res \<times> 'u world" where
  "user_calls [] w = (Done (), w)"
| "user_calls (x # xs) w =
     (case user_call x w of
        (Done _, w1) \<Rightarrow> user_calls xs w1
      | (Stop s, w1) \<Rightarrow> (Stop s, w1))"

definition call_Serving ::
  "('u \<Rightarrow> 'u \<times> ucall list \<times> Action) \<Rightarrow> 'u world \<Rightarrow> Action res \<times> 'u world" where
  "call_Serving f w = (case f (user w) of (u, calls, act) \<Rightarrow>
     andThen (user_calls calls (log CbServing (w\<lparr>user := u\<rparr>))) (\<lambda>_ w1. (Done act, w1)))"

definition call_Opened ::
  "('u \<Rightarrow> nat \<Rightarrow> 'u \<times> ucall list \<times> byte list \<times> Action) \<Rightarrow> nat \<Rightarrow> 'u world
     \<Rightarrow> (byte list \<times> Action) res \<times> 'u world" where
  "call_Opened f a w = (case f (user w) a of (u, calls, bs, act) \<Rightarrow>
     andThen (user_calls calls (log (CbOpened a) (w\<lparr>user := u\<rparr>))) (\<lambda>_ w1. (Done (bs, act), w1)))"

definition call_Closed ::
  "('u \<Rightarrow> nat \<Rightarrow> 'u \<times> ucall list \<times> Action) \<Rightarrow> nat \<Rightarrow> 'u world \<Rightarrow> Action res \<times> 'u world" where
  "call_Closed f a w = (case f (user w) a of (u, calls, act) \<Rightarrow>
     andThen (user_calls calls (log (CbClosed a) (w\<lparr>user := u\<rparr>))) (\<lambda>_ w1. (Done act, w1)))"

definition call_PreWrite ::
  "('u \<Rightarrow> 'u \<times> ucall list) \<Rightarrow> 'u world \<Rightarrow> unit res \<times> 'u world" where
  "call_PreWrite f w = (case f (user w) of (u, calls) \<Rightarrow>
     user_calls calls (log CbPreWrite (w\<lparr>user := u\<rparr>)))"

definition call_Data ::
  "('u \<Rightarrow> nat \<Rightarrow> byte list \<Rightarrow> 'u \<times> ucall list \<times> byte list \<times> Action) \<Rightarrow> nat \<Rightarrow> byte list
     \<Rightarrow> 'u world \<Rightarrow> (byte list \<times> Action) res \<times> 'u world" where
  "call_Data f a inb w = (case f (user w) a inb of (u, calls, bs, act) \<Rightarrow>
     andThen (user_calls calls (log (CbData a inb) (w\<lparr>user := u\<rparr>)))
       (\<lambda>_ w1. (Done (bs, act), w1)))"

definition call_Tick ::
  "('u \<Rightarrow> time \<Rightarrow> 'u \<times> ucall list \<times> duration \<times> Action) \<Rightarrow> time \<Rightarrow> 'u world
     \<Rightarrow> (duration \<times> Action) res \<times> 'u world" where
  "call_Tick f now w = (case f (user w) now of (u, calls, d, act) \<Rightarrow>
     andThen (user_calls calls (log (CbTick now) (w\<lparr>user := u\<rparr>))) (\<lambda>_ w1. (Done (d, act), w1)))"

section \<open>System calls of the loop\<close>

text \<open>\<^verbatim>\<open>syscall.Accept\<close>. The kernel never hands out a descriptor that the process still
  holds open: a script that says so describes no run.\<close>

definition Accept :: "int \<Rightarrow> 'u world \<Rightarrow> (int \<times> errno option) res \<times> 'u world" where
  "Accept l w =
     andThen (sys_ret (log (SysAccept l) w))
       (\<lambda>(k, e) w1. case e of
            Some x \<Rightarrow> (Done (k, e), w1)
          | None \<Rightarrow> (if k \<in> open_fds w1 then (Stop OffScript, w1)
                     else (Done (k, e), w1\<lparr>open_fds := insert k (open_fds w1)\<rparr>)))"

text \<open>\<^verbatim>\<open>syscall.Close\<close>, whose result the code never reads.\<close>

definition sys_Close :: "int \<Rightarrow> 'u world \<Rightarrow> 'u world" where
  "sys_Close k w = log (SysClose k) (w\<lparr>open_fds := open_fds w - {k}\<rparr>)"

definition SetsockoptInt :: "int \<Rightarrow> sockopt \<Rightarrow> int \<Rightarrow> 'u world \<Rightarrow> errno option res \<times> 'u world" where
  "SetsockoptInt k opt v w =
     andThen (sys_ret (log (SysSetsockopt k opt v) w)) (\<lambda>(n, e) w1. (Done e, w1))"

definition SetNonblock :: "int \<Rightarrow> 'u world \<Rightarrow> errno option res \<times> 'u world" where
  "SetNonblock k w = andThen (sys_ret (log (SysSetNonblock k) w)) (\<lambda>(n, e) w1. (Done e, w1))"

text \<open>\<^verbatim>\<open>func setKeepAlive(fd, secs int) error\<close>: three socket options on Linux, nothing on
  BSD.\<close>

definition setKeepAlive :: "int \<Rightarrow> int \<Rightarrow> 'u world \<Rightarrow> errno option res \<times> 'u world" where
  "setKeepAlive k secs w = (case the_poll w of
       Kqueue pf ch evs evf \<Rightarrow> (Done None, w)
     | Epoll pf evs evf \<Rightarrow>
         andThen (SetsockoptInt k SO_KEEPALIVE 1 w)
           (\<lambda>e w1. case e of
                Some x \<Rightarrow> (Done (Some x), w1)
              | None \<Rightarrow>
                  andThen (SetsockoptInt k TCP_KEEPINTVL secs w1)
                    (\<lambda>e w2. case e of
                         Some x \<Rightarrow> (Done (Some x), w2)
                       | None \<Rightarrow> SetsockoptInt k TCP_KEEPIDLE secs w2)))"

section \<open>One ready descriptor\<close>

text \<open>The listeners of \<^verbatim>\<open>Serve\<close>: the parallel slices \<^verbatim>\<open>lfds\<close> and \<^verbatim>\<open>lns\<close>, of which the
  loop reads the descriptor and whether the listener is a \<^verbatim>\<open>*net.TCPListener\<close>.\<close>

record listener =
  lfd :: int
  tcp :: bool

text \<open>\<^verbatim>\<open>for i, lfd := range lfds { if lfd == fd { ... continue nextfd } }\<close>: the first
  listener with that descriptor.\<close>

fun find_listener :: "int \<Rightarrow> nat \<Rightarrow> listener list \<Rightarrow> (nat \<times> listener) option" where
  "find_listener k i [] = None"
| "find_listener k i (l # ls) = (if lfd l = k then Some (i, l) else find_listener k (Suc i) ls)"

text \<open>\<^verbatim>\<open>&conn{fd: fd, sa: sa, poll: p, saddr: i, laddr: lns[i].Addr()}\<close>\<close>

definition new_conn :: "int \<Rightarrow> nat \<Rightarrow> conn" where
  "new_conn k i = \<lparr>write_flag = False, fd = k, oidx = 0, out = [], out_cap = 0,
                   action = None_Action, poll = True, saddr = i\<rparr>"

text \<open>What follows a callback that returned \<^verbatim>\<open>out, action\<close> (after \<^verbatim>\<open>Opened\<close> and after
  \<^verbatim>\<open>Data\<close>): \<^verbatim>\<open>if len(out) > 0 || action != None { c.out = append(c.out, out...);
  c.action = action; c.write = true; p.modReadWrite(fd) }\<close>\<close>

definition returned_out :: "int \<Rightarrow> nat \<Rightarrow> byte list \<Rightarrow> Action \<Rightarrow> 'u world \<Rightarrow> unit res \<times> 'u world" where
  "returned_out k a bs act w =
     (if length bs > 0 \<or> act \<noteq> None_Action then
        modReadWrite k
          (upd a (\<lambda>c. (append_out (growslice w) bs c)\<lparr>action := act, write_flag := True\<rparr>) w)
      else (Done (), w))"

text \<open>The accept path, for the listener \<open>l\<close> at index \<open>i\<close>.\<close>

definition accept_path :: "'u Events \<Rightarrow> nat \<Rightarrow> listener \<Rightarrow> 'u world \<Rightarrow> unit res \<times> 'u world" where
  "accept_path ev i l w =
     andThen (Accept (lfd l) w)
       (\<lambda>(k, e) w1. case e of
            Some x \<Rightarrow> (if x = EAGAIN then (Done (), w1) else (Stop (Panic (PanicErr x)), w1))
          | None \<Rightarrow>
              andThen (if tcp l then setKeepAlive k 300 w1 else (Done None, w1))
                (\<lambda>ke w2. case ke of
                     Some x \<Rightarrow> (Done (), sys_Close k w2)
                   | None \<Rightarrow>
                       andThen (SetNonblock k w2)
                         (\<lambda>se w3. case se of
                              Some x \<Rightarrow> (Done (), sys_Close k w3)
                            | None \<Rightarrow>
                                andThen (addRead k w3)
                                  (\<lambda>_ w4.
                                     let a = nconn w4;
                                         w5 = w4\<lparr>heap := (heap w4)(a := new_conn k i),
                                                 nconn := Suc a,
                                                 conns := AList.update k a (conns w4)\<rparr>
                                     in case Opened ev of
                                          None \<Rightarrow> (Done (), w5)
                                        | Some f \<Rightarrow>
                                            andThen (call_Opened f a w5)
                                              (\<lambda>(bs, act) w6. returned_out k a bs act w6)))))"

text \<open>\<^verbatim>\<open>if err != nil { if err != syscall.EAGAIN { ... break } }\<close>: the error that ends
  the write loop.\<close>

definition write_fails :: "errno option \<Rightarrow> errno option" where
  "write_fails e = (case e of None \<Rightarrow> None | Some x \<Rightarrow> (if x \<noteq> EAGAIN then Some x else None))"

datatype drain_exit = WriteFailed errno | Drained

text \<open>The loop \<^verbatim>\<open>for { n, err := syscall.Write(c.fd, c.out[c.oidx:]) ... }\<close>. The result
  says which \<^verbatim>\<open>break\<close> left it.\<close>

function drain :: "nat \<Rightarrow> 'u world \<Rightarrow> drain_exit res \<times> 'u world" where
  "drain a w =
     (if oidx (heap w a) < 0 \<or> int (length (out (heap w a))) < oidx (heap w a)
      then (Stop (Panic SliceBounds), w)
      else
        case sys_ret (log (SysWrite (fd (heap w a)) (drop (nat (oidx (heap w a))) (out (heap w a)))) w) of
          (Stop s, w1) \<Rightarrow> (Stop s, w1)
        | (Done (n, e), w1) \<Rightarrow>
            (case write_fails e of
               Some x \<Rightarrow>
                 (Done (WriteFailed x),
                  upd a (\<lambda>c. if Action_int (action c) < Action_int Close
                             then c\<lparr>action := Close\<rparr> else c) w1)
             | None \<Rightarrow>
                 (if oidx (heap w1 a) + n < int (length (out (heap w1 a)))
                  then drain a (upd a (\<lambda>c. c\<lparr>oidx := oidx c + n\<rparr>) w1)
                  else (Done Drained, upd a (\<lambda>c. c\<lparr>oidx := oidx c + n\<rparr>) w1))))"
  by pat_completeness auto
termination
  by (relation "measure (\<lambda>(a, w). length (script w))")
     (auto simp: sys_ret_def log_def upd_def split: list.splits sysret.splits)

declare drain.simps [simp del]

text \<open>The write loop and what follows it: the cursor and the buffer are reset, and a
  connection with no pending action goes back to read-only.\<close>

definition flush :: "nat \<Rightarrow> 'u world \<Rightarrow> unit res \<times> 'u world" where
  "flush a w =
     andThen (drain a w)
       (\<lambda>_ w1.
          let w2 = upd a (\<lambda>c. c\<lparr>oidx := 0, out := [],
                                  out_cap := (if out_cap c > 4096 then 0 else out_cap c)\<rparr>) w1
          in if action (heap w2 a) = None_Action then
               modRead (fd (heap w2 a)) (upd a (\<lambda>c. c\<lparr>write_flag := False\<rparr>) w2)
             else (Done (), w2))"

text \<open>The branch \<^verbatim>\<open>if len(c.out)-c.oidx > 0\<close>.\<close>

definition write_branch :: "'u Events \<Rightarrow> nat \<Rightarrow> 'u world \<Rightarrow> unit res \<times> 'u world" where
  "write_branch ev a w =
     andThen (case PreWrite ev of None \<Rightarrow> (Done (), w) | Some f \<Rightarrow> call_PreWrite f w)
       (\<lambda>_ w1. flush a w1)"

datatype ctl = Continue | Break

text \<open>The branch \<^verbatim>\<open>else if c.action >= Close\<close>. \<open>Break\<close> stands for
  \<^verbatim>\<open>shutdown = true; break\<close>.\<close>

definition close_branch :: "'u Events \<Rightarrow> nat \<Rightarrow> 'u world \<Rightarrow> ctl res \<times> 'u world" where
  "close_branch ev a w =
     (let w1 = upd a (\<lambda>c. c\<lparr>poll := False\<rparr>) w;
          w2 = sys_Close (fd (heap w1 a)) w1;
          w3 = w2\<lparr>conns := AList.delete (fd (heap w2 a)) (conns w2)\<rparr>
      in case Closed ev of
           None \<Rightarrow> (Done Continue, w3)
         | Some f \<Rightarrow>
             andThen (call_Closed f a w3)
               (\<lambda>act w4. if action (heap w4 a) = Shutdown \<or> act = Shutdown
                          then (Done Break, w4) else (Done Continue, w4)))"

text \<open>The last branch: read into \<^verbatim>\<open>packet\<close> and hand \<^verbatim>\<open>packet[:n]\<close> to \<^verbatim>\<open>Data\<close>.\<close>

definition read_branch :: "'u Events \<Rightarrow> int \<Rightarrow> nat \<Rightarrow> 'u world \<Rightarrow> unit res \<times> 'u world" where
  "read_branch ev k a w =
     andThen (sys_read (log (SysRead (fd (heap w a))) w))
       (\<lambda>(n, e, bs) w0.
          let w1 = w0\<lparr>packet := stored bs (packet w0)\<rparr>
          in if e \<noteq> None \<or> n = 0 then
               (Done (), if e \<noteq> Some EAGAIN then upd a (\<lambda>c. c\<lparr>action := Close\<rparr>) w1 else w1)
             else
               case Data ev of
                 None \<Rightarrow> (Done (), w1)
               | Some f \<Rightarrow>
                   (if n < 0 \<or> int (length (packet w1)) < n then (Stop (Panic SliceBounds), w1)
                    else andThen (call_Data f a (take (nat n) (packet w1)) w1)
                           (\<lambda>(bs, act) w2. returned_out k a bs act w2)))"

text \<open>The body of \<^verbatim>\<open>for _, fd := range fds\<close>. \<^verbatim>\<open>conns[fd]\<close> of a descriptor that is not
  in the map is the nil pointer, and \<^verbatim>\<open>c.out\<close> dereferences it.\<close>

definition dispatch :: "'u Events \<Rightarrow> listener list \<Rightarrow> int \<Rightarrow> 'u world \<Rightarrow> ctl res \<times> 'u world" where
  "dispatch ev lns k w = (case find_listener k 0 lns of
       Some (i, l) \<Rightarrow> andThen (accept_path ev i l w) (\<lambda>_ w1. (Done Continue, w1))
     | None \<Rightarrow>
         (case map_of (conns w) k of
            None \<Rightarrow> (Stop (Panic NilDereference), w)
          | Some a \<Rightarrow>
              (if int (length (out (heap w a))) - oidx (heap w a) > 0 then
                 andThen (write_branch ev a w) (\<lambda>_ w1. (Done Continue, w1))
               else if Action_int (action (heap w a)) \<ge> Action_int Close then
                 close_branch ev a w
               else andThen (read_branch ev k a w) (\<lambda>_ w1. (Done Continue, w1)))))"

fun ready_loop :: "'u Events \<Rightarrow> listener list \<Rightarrow> int list \<Rightarrow> 'u world \<Rightarrow> ctl res \<times> 'u world" where
  "ready_loop ev lns [] w = (Done Continue, w)"
| "ready_loop ev lns (k # ks) w =
     (case dispatch ev lns k w of
        (Done Continue, w1) \<Rightarrow> ready_loop ev lns ks w1
      | (Done Break, w1) \<Rightarrow> (Done Break, w1)
      | (Stop s, w1) \<Rightarrow> (Stop s, w1))"

section \<open>The tick and the loop\<close>

text \<open>\<^verbatim>\<open>now.Sub(lastTick)\<close>: the difference, or the largest or smallest \<^verbatim>\<open>Duration\<close>
  when it does not fit (package \<^verbatim>\<open>time\<close>).\<close>

definition Time_Sub :: "time \<Rightarrow> time \<Rightarrow> duration" where
  "Time_Sub t u = max (- (2 ^ 63)) (min (2 ^ 63 - 1) (t - u))"

text \<open>\<^verbatim>\<open>if events.Tick != nil { ... }\<close> at the end of an iteration; \<open>True\<close> is
  \<^verbatim>\<open>return nil\<close>.\<close>

definition tick_step :: "'u Events \<Rightarrow> 'u world \<Rightarrow> bool res \<times> 'u world" where
  "tick_step ev w = (case Tick ev of
       None \<Rightarrow> (Done False, w)
     | Some f \<Rightarrow>
         andThen (sys_now w)
           (\<lambda>now w1.
              if Time_Sub now (lastTick w1) > delay w1 then
                andThen (call_Tick f now (w1\<lparr>lastTick := now\<rparr>))
                  (\<lambda>(d, act) w2.
                     (Done (act = Shutdown), w2\<lparr>delay := (if d < 0 then 0 else d)\<rparr>))
              else (Done False, w1)))"

text \<open>One iteration of \<^verbatim>\<open>for !shutdown\<close>; \<open>True\<close> when \<^verbatim>\<open>Serve\<close> returns after it, by
  the tick's \<^verbatim>\<open>return nil\<close> or because \<^verbatim>\<open>shutdown\<close> was set.\<close>

definition loop_iter :: "'u Events \<Rightarrow> listener list \<Rightarrow> 'u world \<Rightarrow> bool res \<times> 'u world" where
  "loop_iter ev lns w =
     andThen (wait (delay w) w)
       (\<lambda>fds w1.
          andThen (ready_loop ev lns fds w1)
            (\<lambda>c w2.
               andThen (tick_step ev w2) (\<lambda>ret w3. (Done (ret \<or> c = Break), w3))))"

section \<open>Notions for stating properties\<close>

text \<open>The steps of the write loop: the system call is logged and its answer taken from
  the script; the cursor moves on by the count returned; a failed write escalates the
  pending action to at least \<open>Close\<close>. \<open>sliceable\<close> says that \<^verbatim>\<open>c.out[c.oidx:]\<close> is in
  range.\<close>

definition wrote :: "nat \<Rightarrow> 'u world \<Rightarrow> 'u world" where
  "wrote a w = (log (SysWrite (fd (heap w a)) (drop (nat (oidx (heap w a))) (out (heap w a)))) w)
                  \<lparr>script := tl (script w)\<rparr>"

definition advance :: "nat \<Rightarrow> int \<Rightarrow> 'u world \<Rightarrow> 'u world" where
  "advance a n w = upd a (\<lambda>c. c\<lparr>oidx := oidx c + n\<rparr>) w"

definition escalate :: "nat \<Rightarrow> 'u world \<Rightarrow> 'u world" where
  "escalate a w = upd a (\<lambda>c. if Action_int (action c) < Action_int Close
                             then c\<lparr>action := Close\<rparr> else c) w"

definition sliceable :: "conn \<Rightarrow> bool" where
  "sliceable c \<longleftrightarrow> 0 \<le> oidx c \<and> oidx c \<le> int (length (out c))"

text \<open>How often \<^verbatim>\<open>Closed\<close> was called for the connection at an address.\<close>

definition closed_count :: "nat \<Rightarrow> event list \<Rightarrow> nat" where
  "closed_count a t = count_list t (CbClosed a)"

text \<open>A step is calm when it leaves the connection map, the allocation counter and
  the descriptor of every connection as they are, closes no descriptor, calls no
  \<^verbatim>\<open>Closed\<close>, and does not lengthen the script. It is quiet when it leaves all
  connections as they are, too.\<close>

definition calm :: "'u world \<Rightarrow> 'u world \<Rightarrow> bool" where
  "calm w w' \<longleftrightarrow>
     nconn w' = nconn w \<and> conns w' = conns w \<and> open_fds w \<subseteq> open_fds w' \<and>
     growslice w' = growslice w \<and>
     length (script w') \<le> length (script w) \<and>
     (\<forall>a. fd (heap w' a) = fd (heap w a)) \<and>
     (\<forall>a. closed_count a (trace w') = closed_count a (trace w))"

definition quiet :: "'u world \<Rightarrow> 'u world \<Rightarrow> bool" where
  "quiet w w' \<longleftrightarrow> calm w w' \<and> heap w' = heap w"

text \<open>The delay returned by the tick, as the loop adopts it:
  \<^verbatim>\<open>if delay < 0 { delay = 0 }\<close>.\<close>

definition adopt :: "duration \<Rightarrow> 'u world \<Rightarrow> 'u world" where
  "adopt d w = w\<lparr>delay := (if d < 0 then 0 else d)\<rparr>"

text \<open>User code is polite when it never calls \<^verbatim>\<open>Write\<close> with an empty slice.\<close>

fun nonempty_call :: "ucall \<Rightarrow> bool" where
  "nonempty_call (UWrite a bs) = (bs \<noteq> [])"
| "nonempty_call (UClose a) = True"

definition polite :: "'u Events \<Rightarrow> bool" where
  "polite ev \<longleftrightarrow>
     (\<forall>f u. Serving ev = Some f \<longrightarrow> list_all nonempty_call (fst (snd (f u)))) \<and>
     (\<forall>f u a. Opened ev = Some f \<longrightarrow> list_all nonempty_call (fst (snd (f u a)))) \<and>
     (\<forall>f u a. Closed ev = Some f \<longrightarrow> list_all nonempty_call (fst (snd (f u a)))) \<and>
     (\<forall>f u. PreWrite ev = Some f \<longrightarrow> list_all nonempty_call (snd (f u))) \<and>
     (\<forall>f u a bs. Data ev = Some f \<longrightarrow> list_all nonempty_call (fst (snd (f u a bs)))) \<and>
     (\<forall>f u t. Tick ev = Some f \<longrightarrow> list_all nonempty_call (fst (snd (f u t))))"

text \<open>What holds of every connection between two steps of the loop: the cursor is 0,
  and a non-empty output buffer comes with the write flag, and so does a pending
  \<open>Shutdown\<close>. With polite user code (\<open>s\<close>), the write flag in turn comes with a
  non-empty buffer or a pending action.\<close>

definition conn_ok :: "bool \<Rightarrow> conn \<Rightarrow> bool" where
  "conn_ok s c \<longleftrightarrow>
     oidx c = 0 \<and> (out c \<noteq> [] \<longrightarrow> write_flag c) \<and>
     (action c = Shutdown \<longrightarrow> write_flag c) \<and>
     (s \<longrightarrow> write_flag c \<longrightarrow> out c \<noteq> [] \<or> action c \<noteq> None_Action)"

definition heap_ok :: "bool \<Rightarrow> 'u world \<Rightarrow> bool" where
  "heap_ok s w \<longleftrightarrow> (\<forall>a. conn_ok s (heap w a))"

text \<open>The state after \<open>n\<close> iterations of the loop, none of which ended it.\<close>

fun iterations :: "nat \<Rightarrow> 'u Events \<Rightarrow> listener list \<Rightarrow> 'u world \<Rightarrow> 'u world option" where
  "iterations 0 ev lns w = Some w"
| "iterations (Suc n) ev lns w =
     (case loop_iter ev lns w of
        (Done False, w1) \<Rightarrow> iterations n ev lns w1
      | _ \<Rightarrow> None)"

text \<open>The accept path either leaves the connections and the map as they are, or inserts
  a fresh connection and goes on with \<^verbatim>\<open>Opened\<close>.\<close>

definition inserted :: "int \<Rightarrow> nat \<Rightarrow> 'u world \<Rightarrow> 'u world" where
  "inserted k i w = w\<lparr>heap := (heap w)(nconn w := new_conn k i), nconn := Suc (nconn w),
                       conns := AList.update k (nconn w) (conns w)\<rparr>"

definition after_insert :: "'u Events \<Rightarrow> int \<Rightarrow> nat \<Rightarrow> 'u world \<Rightarrow> unit res \<times> 'u world" where
  "after_insert ev k a w = (case Opened ev of
       None \<Rightarrow> (Done (), w)
     | Some f \<Rightarrow> andThen (call_Opened f a w) (\<lambda>(bs, act) w6. returned_out k a bs act w6))"

text \<open>The bookkeeping of \<^verbatim>\<open>Closed\<close>. Against a list of entries still to be closed:
  these connections are distinct and allocated and \<^verbatim>\<open>Closed\<close> was not yet called for
  them; for every other allocated connection it was called once; for an address not
  yet allocated, never. The state of the loop is \<open>tracked\<close> when this holds against the
  connection map, the map has one entry per descriptor, each under the descriptor of
  its connection, and all these descriptors are open.\<close>

definition pending :: "(int \<times> nat) list \<Rightarrow> 'u world \<Rightarrow> bool" where
  "pending es w \<longleftrightarrow>
     distinct (map snd es) \<and>
     (\<forall>(k, a) \<in> set es. a < nconn w \<and> closed_count a (trace w) = 0) \<and>
     (\<forall>a. a < nconn w \<and> a \<notin> snd ` set es \<longrightarrow> closed_count a (trace w) = 1) \<and>
     (\<forall>a. nconn w \<le> a \<longrightarrow> closed_count a (trace w) = 0)"

definition tracked :: "'u world \<Rightarrow> bool" where
  "tracked w \<longleftrightarrow>
     pending (conns w) w \<and> distinct (map fst (conns w)) \<and>
     fst ` set (conns w) \<subseteq> open_fds w \<and>
     (\<forall>(k, a) \<in> set (conns w). fd (heap w a) = k)"

text \<open>The state after the lines \<^verbatim>\<open>c.poll = nil; syscall.Close(c.fd);
  delete(conns, c.fd)\<close> for the connection at \<open>a\<close> with descriptor \<open>k\<close>.\<close>

definition finalized :: "int \<Rightarrow> nat \<Rightarrow> 'u world \<Rightarrow> 'u world" where
  "finalized k a w =
     (sys_Close k (upd a (\<lambda>c. c\<lparr>poll := False\<rparr>) w))\<lparr>conns := AList.delete k (conns w)\<rparr>"

section \<open>Case analysis of the primitives\<close>

lemma andThenE:
  assumes "andThen m k = (r, w')"
  obtains s where "m = (Stop s, w')" "r = Stop s"
  | x w1 where "m = (Done x, w1)" "k x w1 = (r, w')"
  using assms by (auto simp: andThen_def split: prod.splits res.splits)

lemma sys_retE:
  assumes "sys_ret w = (r, w')"
  obtains "r = Stop OffScript" "w' = w"
  | n e rest where "script w = Ret n e # rest" "r = Done (n, e)" "w' = w\<lparr>script := rest\<rparr>"
  using assms by (auto simp: sys_ret_def split: list.splits sysret.splits)

lemma sys_readE:
  assumes "sys_read w = (r, w')"
  obtains "r = Stop OffScript" "w' = w"
  | n e bs rest where "script w = RetRead n e bs # rest" "r = Done (n, e, bs)" "w' = w\<lparr>script := rest\<rparr>"
  using assms by (auto simp: sys_read_def split: list.splits sysret.splits)

lemma sys_nowE:
  assumes "sys_now w = (r, w')"
  obtains "r = Stop OffScript" "w' = w"
  | t rest where "script w = RetNow t # rest" "r = Done t" "w' = w\<lparr>script := rest\<rparr>"
  using assms by (auto simp: sys_now_def split: list.splits sysret.splits)

lemma sys_epollE:
  assumes "sys_epoll w = (r, w')"
  obtains "r = Stop OffScript" "w' = w"
  | n e evs rest where "script w = RetEpoll n e evs # rest" "r = Done (n, e, evs)" "w' = w\<lparr>script := rest\<rparr>"
  using assms by (auto simp: sys_epoll_def split: list.splits sysret.splits)

lemma sys_keventE:
  assumes "sys_kevent w = (r, w')"
  obtains "r = Stop OffScript" "w' = w"
  | n e evs rest where "script w = RetKevent n e evs # rest" "r = Done (n, e, evs)" "w' = w\<lparr>script := rest\<rparr>"
  using assms by (auto simp: sys_kevent_def split: list.splits sysret.splits)

section \<open>The write loop, step by step\<close>

lemma drain_cases:
  assumes "drain a w = (r, w')"
  obtains
    (bounds) "\<not> sliceable (heap w a)" "r = Stop (Panic SliceBounds)" "w' = w"
  | (off) s where "sliceable (heap w a)" "r = Stop s"
      "w' = log (SysWrite (fd (heap w a)) (drop (nat (oidx (heap w a))) (out (heap w a)))) w"
  | (fail) n x rest where "sliceable (heap w a)" "script w = Ret n (Some x) # rest" "x \<noteq> EAGAIN"
      "r = Done (WriteFailed x)" "w' = escalate a (wrote a w)"
  | (drained) n e rest where "sliceable (heap w a)" "script w = Ret n e # rest" "write_fails e = None"
      "\<not> oidx (heap w a) + n < int (length (out (heap w a)))"
      "r = Done Drained" "w' = advance a n (wrote a w)"
  | (more) n e rest where "sliceable (heap w a)" "script w = Ret n e # rest" "write_fails e = None"
      "oidx (heap w a) + n < int (length (out (heap w a)))"
      "drain a (advance a n (wrote a w)) = (r, w')"
proof (cases "sliceable (heap w a)")
  case False
  with assms have "r = Stop (Panic SliceBounds)" "w' = w"
    by (auto simp: drain.simps[of a w] sliceable_def)
  with False show ?thesis by (rule bounds)
next
  case True
  then have nb: "\<not> (oidx (heap w a) < 0 \<or> int (length (out (heap w a))) < oidx (heap w a))"
    by (auto simp: sliceable_def)
  show ?thesis
  proof (cases "script w")
    case Nil
    with assms nb have "r = Stop OffScript"
      "w' = log (SysWrite (fd (heap w a)) (drop (nat (oidx (heap w a))) (out (heap w a)))) w"
      by (auto simp: drain.simps[of a w] sys_ret_def log_def)
    with True show ?thesis by (rule off)
  next
    case (Cons x rest)
    show ?thesis
    proof (cases x)
      case (Ret n e)
      have s: "sys_ret (log (SysWrite (fd (heap w a)) (drop (nat (oidx (heap w a))) (out (heap w a)))) w)
                = (Done (n, e), wrote a w)"
        using Cons Ret by (simp add: sys_ret_def log_def wrote_def)
      have h: "heap (wrote a w) = heap w" by (simp add: wrote_def log_def)
      show ?thesis
      proof (cases "write_fails e")
        case (Some y)
        then have "e = Some y" "y \<noteq> EAGAIN"
          by (auto simp: write_fails_def split: option.splits if_splits)
        moreover from assms nb s Some have "r = Done (WriteFailed y)" "w' = escalate a (wrote a w)"
          by (auto simp: drain.simps[of a w] escalate_def)
        ultimately show ?thesis using True Cons Ret by (auto intro: fail)
      next
        case None
        show ?thesis
        proof (cases "oidx (heap w a) + n < int (length (out (heap w a)))")
          case T: True
          with assms nb s None h have "drain a (advance a n (wrote a w)) = (r, w')"
            by (simp add: drain.simps[of a w] advance_def)
          with True Cons Ret None T show ?thesis by (auto intro: more)
        next
          case F: False
          with assms nb s None h have "r = Done Drained" "w' = advance a n (wrote a w)"
            by (auto simp: drain.simps[of a w] advance_def)
          with True Cons Ret None F show ?thesis by (auto intro: drained)
        qed
      qed
    qed (use assms nb Cons True in \<open>auto simp: drain.simps[of a w] sys_ret_def log_def intro: off\<close>)
  qed
qed

lemma script_wrote: "script w = x # rest \<Longrightarrow> script (advance a n (wrote a w)) = rest"
  by (simp add: advance_def wrote_def upd_def log_def)

lemma drain_rule:
  assumes "drain a w = (r, w')" and "P w"
    and "\<And>w k bs. P w \<Longrightarrow> P (log (SysWrite k bs) w)"
    and "\<And>w. P w \<Longrightarrow> P (wrote a w)"
    and "\<And>w n. P w \<Longrightarrow> P (advance a n w)"
    and "\<And>w. P w \<Longrightarrow> P (escalate a w)"
  shows "P w'"
  using assms(1,2)
proof (induction "length (script w)" arbitrary: w rule: less_induct)
  case less
  from less.prems(1) show ?case
  proof (cases rule: drain_cases)
    case (more n e rest)
    have "length (script (advance a n (wrote a w))) < length (script w)"
      using more(2) by (simp add: script_wrote)
    from less.hyps[OF this more(5)] less.prems(2) assms(4,5) show ?thesis by blast
  qed (use less.prems(2) assms(3-6) in auto)
qed


section \<open>Steps that leave the connection map alone\<close>

lemma calm_refl [simp]: "calm w w"
  by (simp add: calm_def)

lemma calm_trans: "calm w w1 \<Longrightarrow> calm w1 w2 \<Longrightarrow> calm w w2"
  by (auto simp: calm_def)

lemma calm_log: "\<forall>a. e \<noteq> CbClosed a \<Longrightarrow> calm w w1 \<Longrightarrow> calm w (log e w1)"
  by (auto simp: calm_def log_def closed_count_def)

lemma EpollCtl_calm: "EpollCtl op k m w = (r, w') \<Longrightarrow> calm w w'"
  by (auto simp: EpollCtl_def calm_def log_def closed_count_def elim!: andThenE sys_retE split: option.splits)

lemma kchange_calm: "kchange k fl ft w = (r, w') \<Longrightarrow> calm w w'"
  by (auto simp: kchange_def calm_def split: poller.splits)

lemma modReadWrite_calm: "modReadWrite k w = (r, w') \<Longrightarrow> calm w w'"
  by (auto simp: modReadWrite_def split: poller.splits dest: EpollCtl_calm kchange_calm)

lemma modRead_calm: "modRead k w = (r, w') \<Longrightarrow> calm w w'"
  by (auto simp: modRead_def split: poller.splits dest: EpollCtl_calm kchange_calm)

lemma addRead_calm: "addRead k w = (r, w') \<Longrightarrow> calm w w'"
  by (auto simp: addRead_def split: poller.splits dest: EpollCtl_calm kchange_calm)

lemma calm_upd: "(fd (f (heap w1 a)) = fd (heap w1 a)) \<Longrightarrow> calm w w1 \<Longrightarrow> calm w (upd a f w1)"
  by (auto simp: calm_def upd_def)

lemma conn_Close_calm: "conn_Close a w = (r, w') \<Longrightarrow> calm w w'"
  by (auto simp: conn_Close_def Let_def  elim!: andThenE split: if_splits
       dest!: modReadWrite_calm intro!: calm_upd elim: calm_trans[rotated])


lemma conn_Write_calm: "conn_Write a bs w = (r, w') \<Longrightarrow> calm w w'"
  by (auto simp: conn_Write_def Let_def append_out_def elim!: andThenE split: if_splits
       dest!: modReadWrite_calm intro!: calm_upd elim: calm_trans[rotated])

lemma user_call_calm: "user_call x w = (r, w') \<Longrightarrow> calm w w'"
  by (cases x) (auto dest: conn_Write_calm conn_Close_calm)

lemma user_calls_calm: "user_calls xs w = (r, w') \<Longrightarrow> calm w w'"
proof (induction xs arbitrary: w)
  case Nil
  then show ?case by simp
next
  case (Cons x xs)
  then show ?case
    by (auto split: prod.splits res.splits) (blast intro: calm_trans dest: user_call_calm)+
qed

lemma calm_user: "calm w (w1\<lparr>user := u\<rparr>) \<longleftrightarrow> calm w w1"
  by (simp add: calm_def)

lemma call_Serving_calm: "call_Serving f w = (r, w') \<Longrightarrow> calm w w'"
  by (auto simp: call_Serving_def elim!: andThenE split: prod.splits
      dest!: user_calls_calm elim!: calm_trans[rotated] intro!: calm_log simp: calm_user)

lemma call_Opened_calm: "call_Opened f a w = (r, w') \<Longrightarrow> calm w w'"
  by (auto simp: call_Opened_def elim!: andThenE split: prod.splits
      dest!: user_calls_calm elim!: calm_trans[rotated] intro!: calm_log simp: calm_user)

lemma call_PreWrite_calm: "call_PreWrite f w = (r, w') \<Longrightarrow> calm w w'"
  by (auto simp: call_PreWrite_def elim!: andThenE split: prod.splits
      dest!: user_calls_calm elim!: calm_trans[rotated] intro!: calm_log simp: calm_user)

lemma call_Data_calm: "call_Data f a inb w = (r, w') \<Longrightarrow> calm w w'"
  by (auto simp: call_Data_def elim!: andThenE split: prod.splits
      dest!: user_calls_calm elim!: calm_trans[rotated] intro!: calm_log simp: calm_user)

lemma call_Tick_calm: "call_Tick f now w = (r, w') \<Longrightarrow> calm w w'"
  by (auto simp: call_Tick_def elim!: andThenE split: prod.splits
      dest!: user_calls_calm elim!: calm_trans[rotated] intro!: calm_log simp: calm_user)

lemma returned_out_calm: "returned_out k a bs act w = (r, w') \<Longrightarrow> calm w w'"
  by (auto simp: returned_out_def append_out_def split: if_splits
      dest!: modReadWrite_calm elim!: calm_trans[rotated] intro!: calm_upd)

lemma drain_calm: "drain a w = (r, w') \<Longrightarrow> calm w w'"
  by (erule drain_rule[where P="calm w"])
     (auto simp: calm_def log_def wrote_def advance_def escalate_def upd_def closed_count_def)

lemma call_Closed_calm0: "call_Closed f a w = (r, w') \<Longrightarrow> length (script w') \<le> length (script w)"
  by (auto simp: call_Closed_def log_def calm_def elim!: andThenE split: prod.splits
      dest!: user_calls_calm)

lemma flush_calm: "flush a w = (r, w') \<Longrightarrow> calm w w'"
  by (auto simp: flush_def Let_def calm_def upd_def elim!: andThenE split: if_splits
      dest!: drain_calm modRead_calm) blast+

lemma write_branch_calm: "write_branch ev a w = (r, w') \<Longrightarrow> calm w w'"
  by (auto simp: write_branch_def calm_def elim!: andThenE split: option.splits
      dest!: flush_calm call_PreWrite_calm) blast+


lemma read_branch_calm: "read_branch ev k a w = (r, w') \<Longrightarrow> calm w w'"
  by (auto simp: read_branch_def Let_def calm_def upd_def log_def closed_count_def
      elim!: andThenE sys_readE split: if_splits option.splits
      dest!: call_Data_calm returned_out_calm) blast+

lemma tick_step_calm: "tick_step ev w = (r, w') \<Longrightarrow> calm w w'"
  by (auto simp: tick_step_def calm_def elim!: andThenE sys_nowE split: if_splits option.splits
        dest!: call_Tick_calm) blast+


lemma calm_script: "calm w w' \<Longrightarrow> length (script w') \<le> length (script w)"
  by (simp add: calm_def)

lemma Accept_script: "Accept l w = (r, w') \<Longrightarrow> length (script w') \<le> length (script w)"
  by (auto simp: Accept_def log_def elim!: andThenE sys_retE split: option.splits if_splits)

lemma SetsockoptInt_script: "SetsockoptInt k opt v w = (r, w') \<Longrightarrow> length (script w') \<le> length (script w)"
  by (auto simp: SetsockoptInt_def log_def elim!: andThenE sys_retE)

lemma SetNonblock_script: "SetNonblock k w = (r, w') \<Longrightarrow> length (script w') \<le> length (script w)"
  by (auto simp: SetNonblock_def log_def elim!: andThenE sys_retE)

lemma setKeepAlive_script: "setKeepAlive k secs w = (r, w') \<Longrightarrow> length (script w') \<le> length (script w)"
  by (auto simp: setKeepAlive_def elim!: andThenE split: poller.splits option.splits
      dest!: SetsockoptInt_script)

lemma accept_path_script: "accept_path ev i l w = (r, w') \<Longrightarrow> length (script w') \<le> length (script w)"
  by (auto simp: accept_path_def Let_def sys_Close_def log_def elim!: andThenE split: option.splits if_splits
      dest!: Accept_script setKeepAlive_script SetNonblock_script
             addRead_calm[THEN calm_script] call_Opened_calm[THEN calm_script]
             returned_out_calm[THEN calm_script])


lemma close_branch_script: "close_branch ev a w = (r, w') \<Longrightarrow> length (script w') \<le> length (script w)"
  by (auto simp: close_branch_def Let_def sys_Close_def log_def upd_def elim!: andThenE split: option.splits if_splits
      dest!: call_Closed_calm0)

lemma dispatch_script: "dispatch ev lns k w = (r, w') \<Longrightarrow> length (script w') \<le> length (script w)"
  by (auto simp: dispatch_def elim!: andThenE split: option.splits if_splits
      dest!: accept_path_script close_branch_script write_branch_calm[THEN calm_script]
        read_branch_calm[THEN calm_script])


lemma ready_loop_script: "ready_loop ev lns ks w = (r, w') \<Longrightarrow> length (script w') \<le> length (script w)"
proof (induction ks arbitrary: w)
  case Nil
  then show ?case by simp
next
  case (Cons k ks)
  obtain r1 w1 where d: "dispatch ev lns k w = (r1, w1)" by (cases "dispatch ev lns k w")
  have l: "length (script w1) \<le> length (script w)" using d by (rule dispatch_script)
  show ?case
  proof (cases "r1 = Done Continue")
    case True
    with Cons.prems d have "ready_loop ev lns ks w1 = (r, w')" by simp
    from Cons.IH[OF this] l show ?thesis by simp
  next
    case False
    with Cons.prems d have "w' = w1" by (auto split: res.splits ctl.splits)
    with l show ?thesis by simp
  qed
qed


lemma wait_script: "wait t w = (Done fds, w') \<Longrightarrow> length (script w') < length (script w)"
  by (auto simp: wait_def Let_def log_def elim!: andThenE sys_epollE sys_keventE
      split: poller.splits option.splits prod.splits bool.splits)

lemma loop_iter_script: "loop_iter ev lns w = (Done b, w') \<Longrightarrow> length (script w') < length (script w)"
  by (auto simp: loop_iter_def elim!: andThenE
      dest!: wait_script ready_loop_script tick_step_calm[THEN calm_script])

section \<open>Steps that leave the connections alone, and the accept path\<close>

lemma quiet_refl [simp]: "quiet w w"
  by (simp add: quiet_def)

lemma quiet_trans: "quiet w w1 \<Longrightarrow> quiet w1 w2 \<Longrightarrow> quiet w w2"
  by (auto simp: quiet_def elim: calm_trans)

lemma quiet_sys_ret: "sys_ret (log e w) = (r, w') \<Longrightarrow> \<forall>a. e \<noteq> CbClosed a \<Longrightarrow> quiet w w'"
  by (auto simp: quiet_def calm_def log_def closed_count_def elim!: sys_retE)

lemma EpollCtl_quiet: "EpollCtl op k m w = (r, w') \<Longrightarrow> quiet w w'"
  by (auto simp: EpollCtl_def elim!: andThenE split: option.splits dest!: quiet_sys_ret)

lemma kchange_quiet: "kchange k fl ft w = (r, w') \<Longrightarrow> quiet w w'"
  by (auto simp: kchange_def quiet_def calm_def split: poller.splits)

lemma addRead_quiet: "addRead k w = (r, w') \<Longrightarrow> quiet w w'"
  by (auto simp: addRead_def split: poller.splits dest: EpollCtl_quiet kchange_quiet)

lemma SetsockoptInt_quiet: "SetsockoptInt k opt v w = (r, w') \<Longrightarrow> quiet w w'"
  by (auto simp: SetsockoptInt_def elim!: andThenE dest!: quiet_sys_ret)

lemma SetNonblock_quiet: "SetNonblock k w = (r, w') \<Longrightarrow> quiet w w'"
  by (auto simp: SetNonblock_def elim!: andThenE dest!: quiet_sys_ret)

lemma setKeepAlive_quiet: "setKeepAlive k secs w = (r, w') \<Longrightarrow> quiet w w'"
  by (auto simp: setKeepAlive_def elim!: andThenE split: poller.splits option.splits
      dest!: SetsockoptInt_quiet) (blast intro: quiet_trans)+

lemma Accept_quiet: "Accept l w = (r, w') \<Longrightarrow> quiet w w'"
  by (auto simp: Accept_def quiet_def calm_def log_def closed_count_def
      elim!: andThenE sys_retE split: option.splits if_splits)

lemma Accept_fresh: "Accept l w = (Done (k, None), w') \<Longrightarrow> k \<notin> open_fds w \<and> k \<in> open_fds w'"
  by (auto simp: Accept_def log_def elim!: andThenE sys_retE split: option.splits if_splits)

lemma quiet_sys_Close: "quiet w w1 \<Longrightarrow> k \<notin> open_fds w \<Longrightarrow> quiet w (sys_Close k w1)"
  by (auto simp: quiet_def calm_def sys_Close_def log_def closed_count_def)

lemma accept_path_cases:
  assumes "accept_path ev i l w = (r, w')"
  obtains (early) "quiet w w'"
  | (insert) k w4 where "quiet w w4" "k \<notin> open_fds w" "k \<in> open_fds w4"
      "after_insert ev k (nconn w4) (inserted k i w4) = (r, w')"
proof -
  obtain ra w1 where A: "Accept (lfd l) w = (ra, w1)" by (cases "Accept (lfd l) w")
  have q1: "quiet w w1" using A by (rule Accept_quiet)
  show ?thesis
  proof (cases ra)
    case (Stop s)
    with assms A have "w' = w1" by (simp add: accept_path_def andThen_def)
    with q1 show ?thesis by (auto intro: early)
  next
    case (Done ke)
    obtain k e where ke: "ke = (k, e)" by (cases ke)
    show ?thesis
    proof (cases e)
      case (Some x)
      with assms A Done ke have "w' = w1"
        by (auto simp: accept_path_def andThen_def split: if_splits)
      with q1 show ?thesis by (auto intro: early)
    next
      case None
      with A Done ke have fr: "k \<notin> open_fds w" "k \<in> open_fds w1"
        using Accept_fresh by blast+
      obtain rk w2 where K: "(if tcp l then setKeepAlive k 300 w1 else (Done None, w1)) = (rk, w2)"
        by (cases "if tcp l then setKeepAlive k 300 w1 else (Done None, w1)")
      have q2: "quiet w1 w2" using K by (auto split: if_splits dest: setKeepAlive_quiet)
      have q12: "quiet w w2" using q1 q2 by (rule quiet_trans)
      from assms A Done ke None K
      have rest: "andThen (rk, w2) (\<lambda>ke w2. case ke of
                     Some x \<Rightarrow> (Done (), sys_Close k w2)
                   | None \<Rightarrow>
                       andThen (SetNonblock k w2)
                         (\<lambda>se w3. case se of
                              Some x \<Rightarrow> (Done (), sys_Close k w3)
                            | None \<Rightarrow>
                                andThen (addRead k w3)
                                  (\<lambda>_ w4.
                                     let a = nconn w4;
                                         w5 = w4\<lparr>heap := (heap w4)(a := new_conn k i),
                                                 nconn := Suc a,
                                                 conns := AList.update k a (conns w4)\<rparr>
                                     in case Opened ev of
                                          None \<Rightarrow> (Done (), w5)
                                        | Some f \<Rightarrow>
                                            andThen (call_Opened f a w5)
                                              (\<lambda>(bs, act) w6. returned_out k a bs act w6)))) = (r, w')"
        by (simp add: accept_path_def andThen_def)
      show ?thesis
      proof (cases rk)
        case (Stop s)
        with rest have "w' = w2" by (simp add: andThen_def)
        with q12 show ?thesis by (auto intro: early)
      next
        case D2: (Done kerr)
        show ?thesis
        proof (cases kerr)
          case (Some x)
          with rest D2 have "w' = sys_Close k w2" by (simp add: andThen_def)
          with q12 fr(1) show ?thesis by (auto intro: early quiet_sys_Close)
        next
          case N2: None
          obtain rs w3 where S: "SetNonblock k w2 = (rs, w3)" by (cases "SetNonblock k w2")
          have q3: "quiet w w3" using q12 S by (auto dest: SetNonblock_quiet elim: quiet_trans)
          show ?thesis
          proof (cases rs)
            case (Stop s)
            with rest D2 N2 S have "w' = w3" by (simp add: andThen_def)
            with q3 show ?thesis by (auto intro: early)
          next
            case D3: (Done serr)
            show ?thesis
            proof (cases serr)
              case (Some x)
              with rest D2 N2 S D3 have "w' = sys_Close k w3" by (simp add: andThen_def)
              with q3 fr(1) show ?thesis by (auto intro: early quiet_sys_Close)
            next
              case N3: None
              obtain rr w4 where R: "addRead k w3 = (rr, w4)" by (cases "addRead k w3")
              have q4: "quiet w w4" using q3 R by (auto dest: addRead_quiet elim: quiet_trans)
              have o4: "k \<in> open_fds w4"
                using fr(2) q2 S R
                by (auto dest!: SetNonblock_quiet addRead_quiet simp: quiet_def calm_def) blast
              show ?thesis
              proof (cases rr)
                case (Stop s)
                with rest D2 N2 S D3 N3 R have "w' = w4" by (simp add: andThen_def)
                with q4 show ?thesis by (auto intro: early)
              next
                case D4: (Done u)
                with rest D2 N2 S D3 N3 R
                have "after_insert ev k (nconn w4) (inserted k i w4) = (r, w')"
                  by (simp add: andThen_def after_insert_def inserted_def Let_def)
                with q4 fr(1) o4 show ?thesis by (rule insert)
              qed
            qed
          qed
        qed
      qed
    qed
  qed
qed


section \<open>What the write loop and the pollers do to connections\<close>

lemma EpollCtl_heap: "EpollCtl op k m w = (r, w') \<Longrightarrow> heap w' = heap w"
  by (auto simp: EpollCtl_def log_def elim!: andThenE sys_retE split: option.splits)

lemma kchange_heap: "kchange k fl ft w = (r, w') \<Longrightarrow> heap w' = heap w"
  by (auto simp: kchange_def split: poller.splits)

lemma modReadWrite_heap: "modReadWrite k w = (r, w') \<Longrightarrow> heap w' = heap w"
  by (auto simp: modReadWrite_def split: poller.splits dest: EpollCtl_heap kchange_heap)

lemma modRead_heap: "modRead k w = (r, w') \<Longrightarrow> heap w' = heap w"
  by (auto simp: modRead_def split: poller.splits dest: EpollCtl_heap kchange_heap)

lemma drain_out: "drain a w = (r, w') \<Longrightarrow> out (heap w' b) = out (heap w b) \<and> out_cap (heap w' b) = out_cap (heap w b)"
  by (erule drain_rule[where P="\<lambda>v. out (heap v b) = out (heap w b) \<and> out_cap (heap v b) = out_cap (heap w b)"])
     (auto simp: log_def wrote_def advance_def escalate_def upd_def)

lemma drain_exit:
  "drain a w = (Done x, w') \<Longrightarrow>
     (x = Drained \<and> int (length (out (heap w' a))) \<le> oidx (heap w' a)) \<or>
     (\<exists>e. x = WriteFailed e \<and> e \<noteq> EAGAIN \<and> Action_int Close \<le> Action_int (action (heap w' a)))"
proof (induction "length (script w)" arbitrary: w rule: less_induct)
  case less
  from less.prems(1) show ?case
  proof (cases rule: drain_cases)
    case (more n e rest)
    have "length (script (advance a n (wrote a w))) < length (script w)"
      using more(2) by (simp add: script_wrote)
    from less.hyps[OF this more(5)] show ?thesis .
  next
    case (fail n y rest)
    then show ?thesis by (auto simp: escalate_def upd_def)
  next
    case (drained n e rest)
    then show ?thesis by (auto simp: advance_def wrote_def upd_def log_def)
  qed auto
qed

lemma drain_EAGAIN:
  assumes "script w = Ret n (Some EAGAIN) # rest" and "sliceable (heap w a)"
    and "oidx (heap w a) + n < int (length (out (heap w a)))"
  shows "drain a w = drain a (advance a n (wrote a w))"
  using assms
  by (simp add: drain.simps[of a w] sliceable_def sys_ret_def log_def write_fails_def
        advance_def wrote_def)

lemma flush_result:
  assumes "flush a w = (Done u, w')"
  shows "oidx (heap w' a) = 0 \<and> out (heap w' a) = [] \<and>
         out_cap (heap w' a) = (if 4096 < out_cap (heap w a) then 0 else out_cap (heap w a))"
proof -
  from assms obtain x w1 where d: "drain a w = (Done x, w1)"
    and k: "(let w2 = upd a (\<lambda>c. c\<lparr>oidx := 0, out := [],
                                  out_cap := (if out_cap c > 4096 then 0 else out_cap c)\<rparr>) w1
          in if action (heap w2 a) = None_Action then
               modRead (fd (heap w2 a)) (upd a (\<lambda>c. c\<lparr>write_flag := False\<rparr>) w2)
             else (Done (), w2)) = (Done u, w')"
    by (auto simp: flush_def elim!: andThenE)
  have o: "out_cap (heap w1 a) = out_cap (heap w a)" using drain_out[OF d] by simp
  from k o show ?thesis
    by (auto simp: Let_def upd_def split: if_splits dest!: modRead_heap)
qed

lemma flush_write_error:
  assumes "script w = Ret n (Some e) # rest" and "e \<noteq> EAGAIN" and "sliceable (heap w a)"
  shows "\<exists>w'. flush a w = (Done (), w') \<and> oidx (heap w' a) = 0 \<and> out (heap w' a) = [] \<and>
              script w' = rest \<and>
              trace w' = SysWrite (fd (heap w a)) (drop (nat (oidx (heap w a))) (out (heap w a))) # trace w"
proof -
  have d: "drain a w = (Done (WriteFailed e), escalate a (wrote a w))"
    using assms
    by (simp add: drain.simps[of a w] sliceable_def sys_ret_def log_def write_fails_def
        escalate_def wrote_def)
  have "action (heap (escalate a (wrote a w)) a) \<noteq> None_Action"
    by (cases "action (heap w a)") (auto simp: escalate_def wrote_def upd_def log_def)
  with d assms(1) show ?thesis
    by (auto simp: flush_def andThen_def Let_def upd_def escalate_def wrote_def log_def)
qed

lemma write_branch_result:
  assumes "write_branch ev a w = (Done u, w')"
  shows "oidx (heap w' a) = 0 \<and> out (heap w' a) = [] \<and> out_cap (heap w' a) \<le> 4096"
  using assms
  by (auto simp: write_branch_def elim!: andThenE dest!: flush_result split: if_splits)

lemma close_branch_finalized:
  "fd (heap w a) = k \<Longrightarrow>
   close_branch ev a w = (case Closed ev of
       None \<Rightarrow> (Done Continue, finalized k a w)
     | Some f \<Rightarrow>
         andThen (call_Closed f a (finalized k a w))
           (\<lambda>act w4. if action (heap w4 a) = Shutdown \<or> act = Shutdown
                      then (Done Break, w4) else (Done Continue, w4)))"
  by (auto simp: close_branch_def finalized_def Let_def upd_def sys_Close_def log_def
      split: option.splits)

section \<open>The cursor and the write flag between steps\<close>

lemma conn_Close_ok: "conn_Close a w = (Done x, w') \<Longrightarrow> heap_ok s w \<Longrightarrow> heap_ok s w'"
  by (auto simp: conn_Close_def Let_def heap_ok_def upd_def conn_ok_def elim!: andThenE
      split: if_splits dest!: modReadWrite_heap)

lemma conn_Write_heap:
  assumes "conn_Write a bs w = (Done x, w')"
  shows "heap w' = heap w \<or>
         (action (heap w a) = None_Action \<and>
          heap w' = (heap w)(a := (append_out (growslice w) bs (heap w a))\<lparr>write_flag := True\<rparr>))"
proof (cases "poll (heap w a) \<and> action (heap w a) = None_Action")
  case False
  with assms have "w' = w" by (auto simp: conn_Write_def split: if_splits)
  then show ?thesis by simp
next
  case True
  let ?w1 = "upd a (append_out (growslice w) bs) w"
  show ?thesis
  proof (cases "write_flag (heap ?w1 a)")
    case T: True
    with True assms have "w' = ?w1" by (simp add: conn_Write_def Let_def)
    moreover have "heap ?w1 a = (append_out (growslice w) bs (heap w a))\<lparr>write_flag := True\<rparr>"
      using T by (simp add: upd_def)
    ultimately show ?thesis using True by (auto simp: upd_def)
  next
    case F: False
    with True assms obtain w2 where m: "modReadWrite (fd (heap ?w1 a)) ?w1 = (Done (), w2)"
      and e: "w' = upd a (\<lambda>c. c\<lparr>write_flag := True\<rparr>) w2"
      by (auto simp: conn_Write_def Let_def elim!: andThenE)
    from m have "heap w2 = heap ?w1" by (rule modReadWrite_heap)
    with e True show ?thesis by (auto simp: upd_def)
  qed
qed

lemma conn_Write_ok:
  assumes "conn_Write a bs w = (Done x, w')" and "s \<longrightarrow> bs \<noteq> []" and "heap_ok s w"
  shows "heap_ok s w'"
proof -
  from conn_Write_heap[OF assms(1)] show ?thesis
  proof
    assume "heap w' = heap w"
    with assms(3) show ?thesis by (simp add: heap_ok_def)
  next
    assume h: "action (heap w a) = None_Action \<and>
          heap w' = (heap w)(a := (append_out (growslice w) bs (heap w a))\<lparr>write_flag := True\<rparr>)"
    have "conn_ok s ((append_out (growslice w) bs (heap w a))\<lparr>write_flag := True\<rparr>)"
      using assms(2,3) by (auto simp: heap_ok_def conn_ok_def append_out_def)
    with h assms(3) show ?thesis by (simp add: heap_ok_def)
  qed
qed

lemma user_call_ok:
  "user_call c w = (Done x, w') \<Longrightarrow> (s \<longrightarrow> nonempty_call c) \<Longrightarrow> heap_ok s w \<Longrightarrow> heap_ok s w'"
  by (cases c) (auto dest: conn_Write_ok[where s=s] conn_Close_ok[where s=s])

lemma user_calls_ok:
  "user_calls cs w = (Done x, w') \<Longrightarrow> (s \<longrightarrow> list_all nonempty_call cs) \<Longrightarrow> heap_ok s w
     \<Longrightarrow> heap_ok s w'"
proof (induction cs arbitrary: w)
  case Nil
  then show ?case by simp
next
  case (Cons c cs)
  obtain r1 w1 where u: "user_call c w = (r1, w1)" by (cases "user_call c w")
  with Cons.prems(1) obtain y where r1: "r1 = Done y" and rest: "user_calls cs w1 = (Done x, w')"
    by (cases r1) auto
  from Cons.prems(2) have p: "s \<longrightarrow> nonempty_call c" "s \<longrightarrow> list_all nonempty_call cs" by auto
  from u r1 have "user_call c w = (Done y, w1)" by simp
  from user_call_ok[OF this p(1) Cons.prems(3)] have "heap_ok s w1" .
  from Cons.IH[OF rest p(2) this] show ?case .
qed

lemma heap_ok_log [simp]: "heap_ok s (log e w) = heap_ok s w"
  by (simp add: heap_ok_def log_def)

lemma heap_ok_user [simp]: "heap_ok s (w\<lparr>user := u\<rparr>) = heap_ok s w"
  by (simp add: heap_ok_def)

lemma called_ok:
  assumes "andThen (user_calls cs (log e (w\<lparr>user := u\<rparr>))) (\<lambda>_ w1. (Done y, w1)) = (Done x, w')"
    and "s \<longrightarrow> list_all nonempty_call cs" and "heap_ok s w"
  shows "heap_ok s w'"
proof -
  from assms(1) obtain z where "user_calls cs (log e (w\<lparr>user := u\<rparr>)) = (Done z, w')"
    by (elim andThenE) auto
  from user_calls_ok[OF this assms(2)] assms(3) show ?thesis by simp
qed

lemma call_Opened_ok:
  assumes "call_Opened f a w = (Done x, w')" and "Opened ev = Some f" and "s \<longrightarrow> polite ev"
    and "heap_ok s w"
  shows "heap_ok s w'"
proof -
  obtain u cs bs act where f: "f (user w) a = (u, cs, bs, act)" by (cases "f (user w) a")
  have "s \<longrightarrow> list_all nonempty_call (fst (snd (f (user w) a)))"
    using assms(2,3) by (auto simp: polite_def)
  with f have p: "s \<longrightarrow> list_all nonempty_call cs" by simp
  from assms(1) f
  have "andThen (user_calls cs (log (CbOpened a) (w\<lparr>user := u\<rparr>))) (\<lambda>_ w1. (Done (bs, act), w1)) = (Done x, w')"
    by (simp add: call_Opened_def)
  then show ?thesis using p assms(4) by (rule called_ok)
qed

lemma call_Closed_ok:
  assumes "call_Closed f a w = (Done x, w')" and "Closed ev = Some f" and "s \<longrightarrow> polite ev"
    and "heap_ok s w"
  shows "heap_ok s w'"
proof -
  obtain u cs act where f: "f (user w) a = (u, cs, act)" by (cases "f (user w) a")
  have "s \<longrightarrow> list_all nonempty_call (fst (snd (f (user w) a)))"
    using assms(2,3) by (auto simp: polite_def)
  with f have p: "s \<longrightarrow> list_all nonempty_call cs" by simp
  from assms(1) f
  have "andThen (user_calls cs (log (CbClosed a) (w\<lparr>user := u\<rparr>))) (\<lambda>_ w1. (Done act, w1)) = (Done x, w')"
    by (simp add: call_Closed_def)
  then show ?thesis using p assms(4) by (rule called_ok)
qed

lemma call_PreWrite_ok:
  assumes "call_PreWrite f w = (Done x, w')" and "PreWrite ev = Some f" and "s \<longrightarrow> polite ev"
    and "heap_ok s w"
  shows "heap_ok s w'"
proof -
  obtain u cs where f: "f (user w) = (u, cs)" by (cases "f (user w)")
  have "s \<longrightarrow> list_all nonempty_call (snd (f (user w)))"
    using assms(2,3) by (auto simp: polite_def)
  with f have p: "s \<longrightarrow> list_all nonempty_call cs" by simp
  from assms(1) f have "user_calls cs (log CbPreWrite (w\<lparr>user := u\<rparr>)) = (Done x, w')"
    by (simp add: call_PreWrite_def)
  from user_calls_ok[OF this p] assms(4) show ?thesis by simp
qed

lemma call_Data_ok:
  assumes "call_Data f a inb w = (Done x, w')" and "Data ev = Some f" and "s \<longrightarrow> polite ev"
    and "heap_ok s w"
  shows "heap_ok s w'"
proof -
  obtain u cs bs act where f: "f (user w) a inb = (u, cs, bs, act)" by (cases "f (user w) a inb")
  have "s \<longrightarrow> list_all nonempty_call (fst (snd (f (user w) a inb)))"
    using assms(2,3) by (auto simp: polite_def)
  with f have p: "s \<longrightarrow> list_all nonempty_call cs" by simp
  from assms(1) f
  have "andThen (user_calls cs (log (CbData a inb) (w\<lparr>user := u\<rparr>))) (\<lambda>_ w1. (Done (bs, act), w1)) = (Done x, w')"
    by (simp add: call_Data_def)
  then show ?thesis using p assms(4) by (rule called_ok)
qed

lemma call_Tick_ok:
  assumes "call_Tick f now w = (Done x, w')" and "Tick ev = Some f" and "s \<longrightarrow> polite ev"
    and "heap_ok s w"
  shows "heap_ok s w'"
proof -
  obtain u cs d act where f: "f (user w) now = (u, cs, d, act)" by (cases "f (user w) now")
  have "s \<longrightarrow> list_all nonempty_call (fst (snd (f (user w) now)))"
    using assms(2,3) by (auto simp: polite_def)
  with f have p: "s \<longrightarrow> list_all nonempty_call cs" by simp
  from assms(1) f
  have "andThen (user_calls cs (log (CbTick now) (w\<lparr>user := u\<rparr>))) (\<lambda>_ w1. (Done (d, act), w1)) = (Done x, w')"
    by (simp add: call_Tick_def)
  then show ?thesis using p assms(4) by (rule called_ok)
qed

lemma returned_out_ok: "returned_out k a bs act w = (Done x, w') \<Longrightarrow> heap_ok s w \<Longrightarrow> heap_ok s w'"
  by (auto simp: returned_out_def heap_ok_def upd_def conn_ok_def append_out_def
      split: if_splits dest!: modReadWrite_heap)

lemma drain_others: "drain a w = (r, w') \<Longrightarrow> b \<noteq> a \<Longrightarrow> heap w' b = heap w b"
  by (erule drain_rule[where P="\<lambda>v. b \<noteq> a \<longrightarrow> heap v b = heap w b", THEN mp])
     (auto simp: log_def wrote_def advance_def escalate_def upd_def)

lemma drain_flag:
  "drain a w = (r, w') \<Longrightarrow>
     write_flag (heap w' a) = write_flag (heap w a) \<and>
     (action (heap w' a) = Shutdown \<longrightarrow> action (heap w a) = Shutdown)"
  by (erule drain_rule[where P="\<lambda>v. write_flag (heap v a) = write_flag (heap w a) \<and>
        (action (heap v a) = Shutdown \<longrightarrow> action (heap w a) = Shutdown)"])
     (auto simp: log_def wrote_def advance_def escalate_def upd_def split: if_splits)

lemma flush_ok: "flush a w = (Done x, w') \<Longrightarrow> heap_ok s w \<Longrightarrow> heap_ok s w'"
proof -
  assume f: "flush a w = (Done x, w')" and ok: "heap_ok s w"
  from f obtain y w1 where d: "drain a w = (Done y, w1)"
    and k: "(let w2 = upd a (\<lambda>c. c\<lparr>oidx := 0, out := [],
                                  out_cap := (if out_cap c > 4096 then 0 else out_cap c)\<rparr>) w1
          in if action (heap w2 a) = None_Action then
               modRead (fd (heap w2 a)) (upd a (\<lambda>c. c\<lparr>write_flag := False\<rparr>) w2)
             else (Done (), w2)) = (Done x, w')"
    by (auto simp: flush_def elim!: andThenE)
  have o: "\<And>b. b \<noteq> a \<Longrightarrow> conn_ok s (heap w1 b)"
    using drain_others[OF d] ok by (simp add: heap_ok_def)
  have sh: "action (heap w1 a) = Shutdown \<longrightarrow> write_flag (heap w1 a)"
    using drain_flag[OF d] ok by (auto simp: heap_ok_def conn_ok_def)
  from k o sh show ?thesis
    by (auto simp: Let_def upd_def heap_ok_def conn_ok_def split: if_splits dest!: modRead_heap)
qed

lemma write_branch_ok:
  assumes "write_branch ev a w = (Done x, w')" and "s \<longrightarrow> polite ev" and "heap_ok s w"
  shows "heap_ok s w'"
proof (cases "PreWrite ev")
  case None
  with assms(1) have "flush a w = (Done x, w')"
    by (auto simp: write_branch_def elim!: andThenE)
  then show ?thesis using assms(3) by (rule flush_ok)
next
  case (Some f)
  with assms(1) obtain y w1 where c: "call_PreWrite f w = (Done y, w1)"
    and fl: "flush a w1 = (Done x, w')"
    by (auto simp: write_branch_def elim!: andThenE)
  from call_PreWrite_ok[OF c Some assms(2,3)] have "heap_ok s w1" .
  with fl show ?thesis by (rule flush_ok)
qed


lemma heap_ok_finalized: "heap_ok s w \<Longrightarrow> heap_ok s (finalized k a w)"
  by (simp add: heap_ok_def finalized_def sys_Close_def log_def upd_def conn_ok_def)

lemma close_branch_ok:
  assumes "close_branch ev a w = (Done x, w')" and "s \<longrightarrow> polite ev" and "heap_ok s w"
  shows "heap_ok s w'"
proof (cases "Closed ev")
  case None
  with assms(1) close_branch_finalized[OF refl, where w=w and a=a and ev=ev]
  have "w' = finalized (fd (heap w a)) a w" by simp
  with assms(3) show ?thesis by (simp add: heap_ok_finalized)
next
  case (Some f)
  with assms(1) close_branch_finalized[OF refl, where w=w and a=a and ev=ev]
  have "andThen (call_Closed f a (finalized (fd (heap w a)) a w))
           (\<lambda>act w4. if action (heap w4 a) = Shutdown \<or> act = Shutdown
                      then (Done Break, w4) else (Done Continue, w4)) = (Done x, w')"
    by simp
  then obtain y where "call_Closed f a (finalized (fd (heap w a)) a w) = (Done y, w')"
    by (elim andThenE) (auto split: if_splits)
  from call_Closed_ok[OF this Some assms(2)] assms(3) show ?thesis
    by (simp add: heap_ok_finalized)
qed

lemma read_branch_ok:
  assumes "read_branch ev k a w = (Done x, w')" and "s \<longrightarrow> polite ev" and "heap_ok s w"
  shows "heap_ok s w'"
proof -
  from assms(1) obtain n e bs w0 where
    rd: "sys_read (log (SysRead (fd (heap w a))) w) = (Done (n, e, bs), w0)"
    and k: "(let w1 = w0\<lparr>packet := stored bs (packet w0)\<rparr>
          in if e \<noteq> None \<or> n = 0 then
               (Done (), if e \<noteq> Some EAGAIN then upd a (\<lambda>c. c\<lparr>action := Close\<rparr>) w1 else w1)
             else
               case Data ev of
                 None \<Rightarrow> (Done (), w1)
               | Some f \<Rightarrow>
                   (if n < 0 \<or> int (length (packet w1)) < n then (Stop (Panic SliceBounds), w1)
                    else andThen (call_Data f a (take (nat n) (packet w1)) w1)
                           (\<lambda>(bs, act) w2. returned_out k a bs act w2))) = (Done x, w')"
    by (auto simp: read_branch_def elim!: andThenE)
  let ?w1 = "w0\<lparr>packet := stored bs (packet w0)\<rparr>"
  have h0: "heap w0 = heap w" using rd by (auto simp: log_def elim!: sys_readE)
  then have ok1: "heap_ok s ?w1" using assms(3) by (simp add: heap_ok_def)
  have okc: "heap_ok s (upd a (\<lambda>c. c\<lparr>action := Close\<rparr>) ?w1)"
    using ok1 by (simp add: heap_ok_def upd_def conn_ok_def)
  show ?thesis
  proof (cases "e \<noteq> None \<or> n = 0")
    case True
    with k have "w' = (if e \<noteq> Some EAGAIN then upd a (\<lambda>c. c\<lparr>action := Close\<rparr>) ?w1 else ?w1)"
      by (simp add: Let_def)
    with ok1 okc show ?thesis by simp
  next
    case False
    show ?thesis
    proof (cases "Data ev")
      case None
      with False k have "w' = ?w1" by (simp add: Let_def)
      with ok1 show ?thesis by simp
    next
      case (Some f)
      with False k obtain ob act w2 where
        c: "call_Data f a (take (nat n) (packet ?w1)) ?w1 = (Done (ob, act), w2)"
        and r: "returned_out k a ob act w2 = (Done x, w')"
        by (auto simp: Let_def elim!: andThenE split: if_splits)
      from call_Data_ok[OF c Some assms(2) ok1] have "heap_ok s w2" .
      with r show ?thesis by (rule returned_out_ok)
    qed
  qed
qed

lemma after_insert_ok:
  assumes "after_insert ev k a w = (Done x, w')" and "s \<longrightarrow> polite ev" and "heap_ok s w"
  shows "heap_ok s w'"
proof (cases "Opened ev")
  case None
  with assms(1,3) show ?thesis by (simp add: after_insert_def)
next
  case (Some f)
  with assms(1) obtain ob act w2 where c: "call_Opened f a w = (Done (ob, act), w2)"
    and r: "returned_out k a ob act w2 = (Done x, w')"
    by (auto simp: after_insert_def elim!: andThenE)
  from call_Opened_ok[OF c Some assms(2,3)] have "heap_ok s w2" .
  with r show ?thesis by (rule returned_out_ok)
qed

lemma heap_ok_inserted: "heap_ok s w \<Longrightarrow> heap_ok s (inserted k i w)"
  by (simp add: heap_ok_def inserted_def conn_ok_def new_conn_def)

lemma quiet_ok: "quiet w w' \<Longrightarrow> heap_ok s w \<Longrightarrow> heap_ok s w'"
  by (simp add: quiet_def heap_ok_def)

lemma accept_path_ok:
  assumes "accept_path ev i l w = (Done x, w')" and "s \<longrightarrow> polite ev" and "heap_ok s w"
  shows "heap_ok s w'"
  using assms(1)
proof (cases rule: accept_path_cases)
  case early
  then show ?thesis using assms(3) by (rule quiet_ok)
next
  case (insert k w4)
  from insert(1) assms(3) have "heap_ok s (inserted k i w4)"
    by (auto dest: quiet_ok intro: heap_ok_inserted)
  with insert(4) assms(2) show ?thesis by (auto dest: after_insert_ok[where s=s])
qed

lemma dispatch_ok:
  assumes "dispatch ev lns k w = (Done x, w')" and "s \<longrightarrow> polite ev" and "heap_ok s w"
  shows "heap_ok s w'"
proof -
  from assms(1) consider
    (ac) i l y where "accept_path ev i l w = (Done y, w')"
    | (wr) a y where "write_branch ev a w = (Done y, w')"
    | (cl) a where "close_branch ev a w = (Done x, w')"
    | (rd) a y where "read_branch ev k a w = (Done y, w')"
    by (auto simp: dispatch_def elim!: andThenE split: option.splits if_splits)
  then show ?thesis
  proof cases
    case ac
    then show ?thesis using assms(2,3) by (rule accept_path_ok)
  next
    case wr
    then show ?thesis using assms(2,3) by (rule write_branch_ok)
  next
    case cl
    then show ?thesis using assms(2,3) by (rule close_branch_ok)
  next
    case rd
    then show ?thesis using assms(2,3) by (rule read_branch_ok)
  qed
qed

lemma ready_loop_ok:
  "ready_loop ev lns ks w = (Done x, w') \<Longrightarrow> (s \<longrightarrow> polite ev) \<Longrightarrow> heap_ok s w \<Longrightarrow> heap_ok s w'"
proof (induction ks arbitrary: w)
  case Nil
  then show ?case by simp
next
  case (Cons k ks)
  obtain r1 w1 where d: "dispatch ev lns k w = (r1, w1)" by (cases "dispatch ev lns k w")
  show ?case
  proof (cases "r1 = Done Continue")
    case True
    with Cons.prems(1) d have n: "ready_loop ev lns ks w1 = (Done x, w')" by simp
    from d True have "dispatch ev lns k w = (Done Continue, w1)" by simp
    from dispatch_ok[OF this Cons.prems(2,3)] have "heap_ok s w1" .
    from Cons.IH[OF n Cons.prems(2) this] show ?thesis .
  next
    case False
    with Cons.prems(1) d have "w' = w1" "r1 = Done x"
      by (auto split: res.splits ctl.splits)
    with d have "dispatch ev lns k w = (Done x, w')" by simp
    from dispatch_ok[OF this Cons.prems(2,3)] show ?thesis .
  qed
qed

lemma wait_heap: "wait t w = (r, w') \<Longrightarrow> heap w' = heap w"
  by (auto simp: wait_def Let_def log_def elim!: andThenE sys_epollE sys_keventE
      split: poller.splits option.splits prod.splits bool.splits)

lemma tick_step_ok:
  assumes "tick_step ev w = (Done x, w')" and "s \<longrightarrow> polite ev" and "heap_ok s w"
  shows "heap_ok s w'"
proof (cases "Tick ev")
  case None
  with assms(1,3) show ?thesis by (simp add: tick_step_def)
next
  case (Some f)
  with assms(1) obtain now w1 where n: "sys_now w = (Done now, w1)"
    and k: "(if Time_Sub now (lastTick w1) > delay w1 then
                andThen (call_Tick f now (w1\<lparr>lastTick := now\<rparr>))
                  (\<lambda>(d, act) w2.
                     (Done (act = Shutdown), w2\<lparr>delay := (if d < 0 then 0 else d)\<rparr>))
              else (Done False, w1)) = (Done x, w')"
    by (auto simp: tick_step_def elim!: andThenE)
  have h1: "heap w1 = heap w" using n by (auto elim!: sys_nowE)
  show ?thesis
  proof (cases "Time_Sub now (lastTick w1) > delay w1")
    case False
    with k have "w' = w1" by simp
    with h1 assms(3) show ?thesis by (simp add: heap_ok_def)
  next
    case True
    with k obtain d act w2 where c: "call_Tick f now (w1\<lparr>lastTick := now\<rparr>) = (Done (d, act), w2)"
      and e: "w' = w2\<lparr>delay := (if d < 0 then 0 else d)\<rparr>"
      by (auto elim!: andThenE)
    have "heap_ok s (w1\<lparr>lastTick := now\<rparr>)" using h1 assms(3) by (simp add: heap_ok_def)
    from call_Tick_ok[OF c Some assms(2) this] e show ?thesis by (simp add: heap_ok_def)
  qed
qed

lemma loop_iter_cases:
  assumes "loop_iter ev lns w = (Done x, w')"
  obtains fds w1 c w2 y where "wait (delay w) w = (Done fds, w1)"
    "ready_loop ev lns fds w1 = (Done c, w2)" "tick_step ev w2 = (Done y, w')"
    "x = (y \<or> c = Break)"
proof -
  from assms have "\<exists>fds w1 c w2 y. wait (delay w) w = (Done fds, w1) \<and>
      ready_loop ev lns fds w1 = (Done c, w2) \<and> tick_step ev w2 = (Done y, w') \<and>
      x = (y \<or> c = Break)"
    by (simp add: loop_iter_def andThen_def split: prod.splits res.splits)
  then show ?thesis using that by blast
qed

lemma loop_iter_ok:
  assumes "loop_iter ev lns w = (Done x, w')" and "s \<longrightarrow> polite ev" and "heap_ok s w"
  shows "heap_ok s w'"
proof -
  from assms(1) obtain fds w1 c w2 y where
    a: "wait (delay w) w = (Done fds, w1)" and b: "ready_loop ev lns fds w1 = (Done c, w2)"
    and t: "tick_step ev w2 = (Done y, w')"
    by (rule loop_iter_cases)
  from a assms(3) have "heap_ok s w1" by (auto dest!: wait_heap simp: heap_ok_def)
  from ready_loop_ok[OF b assms(2) this] have "heap_ok s w2" .
  from tick_step_ok[OF t assms(2) this] show ?thesis .
qed

lemma iterations_ok:
  "iterations n ev lns w = Some w' \<Longrightarrow> (s \<longrightarrow> polite ev) \<Longrightarrow> heap_ok s w \<Longrightarrow> heap_ok s w'"
proof (induction n arbitrary: w)
  case 0
  then show ?case by simp
next
  case (Suc n)
  from Suc.prems(1) obtain w1 where l: "loop_iter ev lns w = (Done False, w1)"
    and r: "iterations n ev lns w1 = Some w'"
    by (auto split: prod.splits res.splits bool.splits)
  from loop_iter_ok[OF l Suc.prems(2,3)] have "heap_ok s w1" .
  from Suc.IH[OF r Suc.prems(2) this] show ?case .
qed

section \<open>The calls of \<^verbatim>\<open>Closed\<close>\<close>

lemma calm_tracked: "calm w w' \<Longrightarrow> tracked w \<Longrightarrow> tracked w'"
  by (auto simp: calm_def tracked_def pending_def)

lemma update_fresh: "k \<notin> fst ` set al \<Longrightarrow> AList.update k v al = al @ [(k, v)]"
  by (induction al) auto

lemma inserted_tracked:
  assumes "tracked w" and "k \<notin> fst ` set (conns w)" and "k \<in> open_fds w"
  shows "tracked (inserted k i w)"
proof -
  have u: "AList.update k (nconn w) (conns w) = conns w @ [(k, nconn w)]"
    using assms(2) by (rule update_fresh)
  have n: "nconn w \<notin> snd ` set (conns w)"
    using assms(1) by (force simp: tracked_def pending_def)
  show ?thesis
    using assms n
    by (auto simp: tracked_def pending_def inserted_def u new_conn_def less_Suc_eq)
qed

lemma after_insert_calm: "after_insert ev k a w = (r, w') \<Longrightarrow> calm w w'"
  by (auto simp: after_insert_def elim!: andThenE split: option.splits
      dest!: call_Opened_calm returned_out_calm elim: calm_trans)

lemma quiet_calm: "quiet w w' \<Longrightarrow> calm w w'"
  by (simp add: quiet_def)

lemma accept_path_tracked:
  assumes "accept_path ev i l w = (r, w')" and "tracked w"
  shows "tracked w'"
  using assms(1)
proof (cases rule: accept_path_cases)
  case early
  then show ?thesis using assms(2) by (auto dest: quiet_calm calm_tracked)
next
  case (insert k w4)
  have t4: "tracked w4" using insert(1) assms(2) by (auto dest: quiet_calm calm_tracked)
  have "conns w4 = conns w" using insert(1) by (simp add: quiet_def calm_def)
  with insert(2) assms(2) have "k \<notin> fst ` set (conns w4)"
    by (auto simp: tracked_def)
  with t4 insert(3) have "tracked (inserted k i w4)" by (auto intro: inserted_tracked)
  with insert(4) show ?thesis by (auto dest: after_insert_calm calm_tracked)
qed

lemma call_Closed_calm: "call_Closed f a w = (r, w') \<Longrightarrow> calm (log (CbClosed a) w) w'"
  by (auto simp: call_Closed_def elim!: andThenE split: prod.splits
      dest!: user_calls_calm simp: calm_def log_def)

lemma delete_filter: "AList.delete k al = filter (\<lambda>p. fst p \<noteq> k) al"
  by (induction al) auto

lemma closed_count_Cons:
  "closed_count b (e # t) = (if e = CbClosed b then Suc (closed_count b t) else closed_count b t)"
  by (simp add: closed_count_def)

lemma finalized_tracked:
  assumes "tracked w" and "map_of (conns w) k = Some a"
  shows "tracked (log (CbClosed a) (finalized k a w))"
proof -
  let ?cs = "AList.delete k (conns w)"
  let ?t = "CbClosed a # SysClose k # trace w"
  have m: "(k, a) \<in> set (conns w)" using assms(2) by (rule map_of_SomeD)
  have d1: "distinct (map fst (conns w))" and d2: "distinct (map snd (conns w))"
    and p2: "\<And>k' b. (k', b) \<in> set (conns w) \<Longrightarrow> b < nconn w \<and> closed_count b (trace w) = 0"
    and p3: "\<And>b. b < nconn w \<Longrightarrow> b \<notin> snd ` set (conns w) \<Longrightarrow> closed_count b (trace w) = 1"
    and p4: "\<And>b. nconn w \<le> b \<Longrightarrow> closed_count b (trace w) = 0"
    and op: "fst ` set (conns w) \<subseteq> open_fds w"
    and fds: "\<And>k' b. (k', b) \<in> set (conns w) \<Longrightarrow> fd (heap w b) = k'"
    using assms(1) by (auto simp: tracked_def pending_def)
  have s: "set ?cs = set (conns w) - {(k, a)}"
    using m d1 by (auto simp: delete_filter dest: eq_key_imp_eq_value)
  have na: "\<And>k'. (k', a) \<in> set (conns w) \<Longrightarrow> k' = k"
    using m d2 by (metis distinct_map inj_onD snd_conv prod.inject)
  have c: "\<And>b. closed_count b ?t = (if b = a then Suc (closed_count b (trace w)) else closed_count b (trace w))"
    by (auto simp: closed_count_Cons)
  have q1: "distinct (map snd ?cs)" using d2 by (simp add: delete_filter distinct_map_filter)
  have q2: "\<And>k' b. (k', b) \<in> set ?cs \<Longrightarrow> b < nconn w \<and> closed_count b ?t = 0"
  proof -
    fix k' b assume "(k', b) \<in> set ?cs"
    with s have i: "(k', b) \<in> set (conns w)" and "(k', b) \<noteq> (k, a)" by auto
    with na have "b \<noteq> a" by auto
    with p2[OF i] c show "b < nconn w \<and> closed_count b ?t = 0" by simp
  qed
  have q3: "\<And>b. b < nconn w \<Longrightarrow> b \<notin> snd ` set ?cs \<Longrightarrow> closed_count b ?t = 1"
  proof -
    fix b assume b: "b < nconn w" "b \<notin> snd ` set ?cs"
    show "closed_count b ?t = 1"
    proof (cases "b = a")
      case True
      with p2[OF m] c show ?thesis by simp
    next
      case False
      with b(2) s have "b \<notin> snd ` set (conns w)" by force
      with p3[OF b(1)] c False show ?thesis by simp
    qed
  qed
  have q4: "\<And>b. nconn w \<le> b \<Longrightarrow> closed_count b ?t = 0"
  proof -
    fix b assume b: "nconn w \<le> b"
    with p2[OF m] have "b \<noteq> a" by auto
    with p4[OF b] c show "closed_count b ?t = 0" by simp
  qed
  have q5: "distinct (map fst ?cs)" using d1 by (rule distinct_delete)
  have q6: "fst ` set ?cs \<subseteq> open_fds w - {k}"
    using op by (auto simp: delete_filter)
  have q7: "\<And>k' b. (k', b) \<in> set ?cs \<Longrightarrow> fd (heap (upd a (\<lambda>c. c\<lparr>poll := False\<rparr>) w) b) = k'"
    using fds s by (auto simp: upd_def)
  have e1: "conns (log (CbClosed a) (finalized k a w)) = ?cs"
    and e2: "trace (log (CbClosed a) (finalized k a w)) = ?t"
    and e3: "nconn (log (CbClosed a) (finalized k a w)) = nconn w"
    and e4: "open_fds (log (CbClosed a) (finalized k a w)) = open_fds w - {k}"
    and e5: "heap (log (CbClosed a) (finalized k a w)) = heap (upd a (\<lambda>c. c\<lparr>poll := False\<rparr>) w)"
    by (simp_all add: finalized_def log_def sys_Close_def upd_def)
  show ?thesis
    unfolding tracked_def pending_def e1 e2 e3 e4 e5
    using q1 q2 q3 q4 q5 q6 q7 by blast
qed


lemma close_branch_tracked:
  assumes "close_branch ev a w = (r, w')" and "tracked w" and "map_of (conns w) k = Some a"
    and "Closed ev = Some f"
  shows "tracked w'"
proof -
  have "(k, a) \<in> set (conns w)" using assms(3) by (rule map_of_SomeD)
  with assms(2) have "fd (heap w a) = k" by (auto simp: tracked_def)
  from close_branch_finalized[OF this, of ev] assms(1,4)
  have "andThen (call_Closed f a (finalized k a w))
           (\<lambda>act w4. if action (heap w4 a) = Shutdown \<or> act = Shutdown
                      then (Done Break, w4) else (Done Continue, w4)) = (r, w')"
    by simp
  then obtain r1 where "call_Closed f a (finalized k a w) = (r1, w')"
    by (elim andThenE) (auto split: if_splits)
  then have "calm (log (CbClosed a) (finalized k a w)) w'" by (rule call_Closed_calm)
  with finalized_tracked[OF assms(2,3)] show ?thesis by (auto dest: calm_tracked)
qed

lemma dispatch_tracked:
  assumes "dispatch ev lns k w = (r, w')" and "tracked w" and "Closed ev = Some f"
  shows "tracked w'"
proof (cases "find_listener k 0 lns")
  case (Some il)
  with assms(1) obtain i l r1 where "accept_path ev i l w = (r1, w')"
    by (cases il) (auto simp: dispatch_def elim!: andThenE)
  with assms(2) show ?thesis by (auto dest: accept_path_tracked)
next
  case None
  show ?thesis
  proof (cases "map_of (conns w) k")
    case N: None
    with None assms(1) have "w' = w" by (simp add: dispatch_def)
    with assms(2) show ?thesis by simp
  next
    case (Some a)
    from assms(1) None Some consider
      (wr) r1 where "write_branch ev a w = (r1, w')"
      | (cl) "close_branch ev a w = (r, w')"
      | (rd) r1 where "read_branch ev k a w = (r1, w')"
      by (auto simp: dispatch_def elim!: andThenE split: if_splits)
    then show ?thesis
    proof cases
      case wr
      with assms(2) show ?thesis by (auto dest: write_branch_calm calm_tracked)
    next
      case cl
      then show ?thesis using assms(2) Some assms(3) by (rule close_branch_tracked)
    next
      case rd
      with assms(2) show ?thesis by (auto dest: read_branch_calm calm_tracked)
    qed
  qed
qed

lemma ready_loop_tracked:
  "ready_loop ev lns ks w = (r, w') \<Longrightarrow> tracked w \<Longrightarrow> Closed ev = Some f \<Longrightarrow> tracked w'"
proof (induction ks arbitrary: w)
  case Nil
  then show ?case by simp
next
  case (Cons k ks)
  obtain r1 w1 where d: "dispatch ev lns k w = (r1, w1)" by (cases "dispatch ev lns k w")
  then have t1: "tracked w1" using Cons.prems(2,3) by (rule dispatch_tracked)
  show ?case
  proof (cases "r1 = Done Continue")
    case True
    with Cons.prems d have "ready_loop ev lns ks w1 = (r, w')" by simp
    then show ?thesis using t1 Cons.prems(3) by (rule Cons.IH)
  next
    case False
    with Cons.prems d have "w' = w1" by (auto split: res.splits ctl.splits)
    with t1 show ?thesis by simp
  qed
qed

lemma wait_calm: "wait t w = (r, w') \<Longrightarrow> calm w w'"
  by (auto simp: wait_def Let_def log_def calm_def closed_count_def
      elim!: andThenE sys_epollE sys_keventE
      split: poller.splits option.splits prod.splits bool.splits)

lemma loop_iter_tracked:
  assumes "loop_iter ev lns w = (r, w')" and "tracked w" and "Closed ev = Some f"
  shows "tracked w'"
proof -
  obtain r1 w1 where a: "wait (delay w) w = (r1, w1)" by (cases "wait (delay w) w")
  then have t1: "tracked w1" using assms(2) by (auto dest: wait_calm calm_tracked)
  show ?thesis
  proof (cases r1)
    case (Stop s)
    with assms(1) a have "w' = w1" by (simp add: loop_iter_def andThen_def)
    with t1 show ?thesis by simp
  next
    case (Done fds)
    obtain r2 w2 where b: "ready_loop ev lns fds w1 = (r2, w2)"
      by (cases "ready_loop ev lns fds w1")
    then have t2: "tracked w2" using t1 assms(3) by (rule ready_loop_tracked)
    show ?thesis
    proof (cases r2)
      case (Stop s)
      with assms(1) a Done b have "w' = w2" by (simp add: loop_iter_def andThen_def)
      with t2 show ?thesis by simp
    next
      case D2: (Done c)
      with assms(1) a Done b obtain r3 where "tick_step ev w2 = (r3, w')"
        by (auto simp: loop_iter_def andThen_def split: prod.splits res.splits)
      with t2 show ?thesis by (auto dest: tick_step_calm calm_tracked)
    qed
  qed
qed

section \<open>\<^verbatim>\<open>Serve\<close>\<close>

text \<open>The loop \<^verbatim>\<open>for !shutdown { ... }\<close> with the \<^verbatim>\<open>return nil\<close> after it. Every
  iteration takes an answer to \<^verbatim>\<open>wait\<close> from the script, so the recursion ends with the
  script.\<close>

function serve_loop :: "'u Events \<Rightarrow> listener list \<Rightarrow> 'u world \<Rightarrow> unit res \<times> 'u world" where
  "serve_loop ev lns w =
     (case loop_iter ev lns w of
        (Done False, w1) \<Rightarrow> serve_loop ev lns w1
      | (Done True, w1) \<Rightarrow> (Done (), w1)
      | (Stop s, w1) \<Rightarrow> (Stop s, w1))"
  by pat_completeness auto
termination
  by (relation "measure (\<lambda>(ev, lns, w). length (script w))")
     (auto dest: loop_iter_script[OF sym])

declare serve_loop.simps [simp del]

text \<open>The deferred \<^verbatim>\<open>for cfd, c := range conns { c.poll = nil; syscall.Close(cfd);
  if events.Closed != nil { events.Closed(c) } }\<close>, over the entries in the order in
  which \<^verbatim>\<open>range\<close> yields them.\<close>

fun teardown :: "'u Events \<Rightarrow> (int \<times> nat) list \<Rightarrow> 'u world \<Rightarrow> unit res \<times> 'u world" where
  "teardown ev [] w = (Done (), w)"
| "teardown ev ((k, a) # es) w =
     (let w1 = sys_Close k (upd a (\<lambda>c. c\<lparr>poll := False\<rparr>) w)
      in case Closed ev of
           None \<Rightarrow> teardown ev es w1
         | Some f \<Rightarrow>
             (case call_Closed f a w1 of
                (Done act, w2) \<Rightarrow> teardown ev es w2
              | (Stop s, w2) \<Rightarrow> (Stop s, w2)))"

text \<open>How a call of \<^verbatim>\<open>Serve\<close> ends: it returns nil, it panics (in the loop, with the
  deferred function completed, or inside the deferred function), or the script ends
  before it does.\<close>

datatype outcome = Returned | Panicked panic | PanickedInDefer panic | Unfinished

text \<open>An object at an address that has not been allocated: no call reaches a poller
  through it.\<close>

definition no_conn :: conn where
  "no_conn = \<lparr>write_flag = False, fd = 0, oidx = 0, out = [], out_cap = 0,
              action = None_Action, poll = False, saddr = 0\<rparr>"

text \<open>\<^verbatim>\<open>Serve\<close> from \<^verbatim>\<open>conns := make(map[int]*conn)\<close> on. The listeners \<open>lns\<close> are
  set up and registered; \<open>w0\<close> holds the poller, the script, the user's state and the
  open descriptors at that point; the log starts empty. \<open>order\<close> is the order in which \<^verbatim>\<open>range\<close> goes
  through a map, which Go leaves open.\<close>

definition Serve ::
  "'u Events \<Rightarrow> ((int \<times> nat) list \<Rightarrow> (int \<times> nat) list) \<Rightarrow> listener list \<Rightarrow> 'u world
     \<Rightarrow> outcome \<times> 'u world" where
  "Serve ev order lns w0 =
     (let w = w0\<lparr>heap := (\<lambda>a. no_conn), nconn := 0, conns := [], trace := []\<rparr>;
          enter = (\<lambda>w. serve_loop ev lns
                     (w\<lparr>lastTick := 0, delay := (if Tick ev \<noteq> None then 0 else - 1),
                        packet := replicate 4096 0\<rparr>))
      in case (case Serving ev of
                 None \<Rightarrow> enter w
               | Some f \<Rightarrow>
                   andThen (call_Serving f w)
                     (\<lambda>act w1. if act = Shutdown then (Done (), w1) else enter w1)) of
           (Stop OffScript, w1) \<Rightarrow> (Unfinished, w1)
         | (r, w1) \<Rightarrow>
             (case teardown ev (order (conns w1)) w1 of
                (Done u, w2) \<Rightarrow>
                  (case r of Stop (Panic q) \<Rightarrow> (Panicked q, w2) | _ \<Rightarrow> (Returned, w2))
              | (Stop (Panic q), w2) \<Rightarrow> (PanickedInDefer q, w2)
              | (Stop OffScript, w2) \<Rightarrow> (Unfinished, w2)))"

section \<open>The calls of \<^verbatim>\<open>Closed\<close> over a whole run\<close>

lemma serve_loop_tracked:
  "serve_loop ev lns w = (r, w') \<Longrightarrow> tracked w \<Longrightarrow> Closed ev = Some f \<Longrightarrow> tracked w'"
proof (induction ev lns w rule: serve_loop.induct)
  case (1 ev lns w)
  obtain r1 w1 where l: "loop_iter ev lns w = (r1, w1)" by (cases "loop_iter ev lns w")
  then have t1: "tracked w1" using "1.prems"(2,3) by (rule loop_iter_tracked)
  show ?case
  proof (cases "r1 = Done False")
    case True
    with "1.prems"(1) l have nx: "serve_loop ev lns w1 = (r, w')"
      by (simp add: serve_loop.simps[of ev lns w])
    show ?thesis using "1.IH"[OF l[symmetric] True _ nx t1 "1.prems"(3)] by simp
  next
    case False
    with "1.prems"(1) l have "w' = w1"
      by (auto simp: serve_loop.simps[of ev lns w] split: res.splits bool.splits)
    with t1 show ?thesis by simp
  qed
qed


lemma calm_pending: "calm w w' \<Longrightarrow> pending es w \<Longrightarrow> pending es w'"
  by (auto simp: calm_def pending_def)

lemma pending_step:
  assumes "pending ((k, a) # es) w"
  shows "pending es (log (CbClosed a) (sys_Close k (upd a g w)))"
proof -
  let ?t = "CbClosed a # SysClose k # trace w"
  have c: "\<And>b. closed_count b ?t = (if b = a then Suc (closed_count b (trace w)) else closed_count b (trace w))"
    by (auto simp: closed_count_Cons)
  have d: "distinct (map snd es)" and na: "a \<notin> snd ` set es"
    and a0: "a < nconn w" "closed_count a (trace w) = 0"
    and p2: "\<And>k' b. (k', b) \<in> set es \<Longrightarrow> b < nconn w \<and> closed_count b (trace w) = 0"
    and p3: "\<And>b. b < nconn w \<Longrightarrow> b \<noteq> a \<Longrightarrow> b \<notin> snd ` set es \<Longrightarrow> closed_count b (trace w) = 1"
    and p4: "\<And>b. nconn w \<le> b \<Longrightarrow> closed_count b (trace w) = 0"
    using assms by (auto simp: pending_def)
  have q2: "\<And>k' b. (k', b) \<in> set es \<Longrightarrow> b < nconn w \<and> closed_count b ?t = 0"
  proof -
    fix k' b assume i: "(k', b) \<in> set es"
    with na have "b \<noteq> a" by force
    with p2[OF i] c show "b < nconn w \<and> closed_count b ?t = 0" by simp
  qed
  have q3: "\<And>b. b < nconn w \<Longrightarrow> b \<notin> snd ` set es \<Longrightarrow> closed_count b ?t = 1"
    using a0 p3 c by (case_tac "b = a") auto
  have q4: "\<And>b. nconn w \<le> b \<Longrightarrow> closed_count b ?t = 0"
    using a0 p4 c by auto
  have e: "trace (log (CbClosed a) (sys_Close k (upd a g w))) = ?t"
    "nconn (log (CbClosed a) (sys_Close k (upd a g w))) = nconn w"
    by (simp_all add: log_def sys_Close_def upd_def)
  show ?thesis
    unfolding pending_def e using d q2 q3 q4 by blast
qed

lemma teardown_pending:
  "teardown ev es w = (Done u, w') \<Longrightarrow> Closed ev = Some f \<Longrightarrow> pending es w \<Longrightarrow> pending [] w'"
proof (induction es arbitrary: w)
  case Nil
  then show ?case by simp
next
  case (Cons ka es)
  obtain k a where ka: "ka = (k, a)" by (cases ka)
  let ?w1 = "sys_Close k (upd a (\<lambda>c. c\<lparr>poll := False\<rparr>) w)"
  obtain r2 w2 where c: "call_Closed f a ?w1 = (r2, w2)" by (cases "call_Closed f a ?w1")
  with Cons.prems(1,2) ka obtain act where r2: "r2 = Done act"
    and rest: "teardown ev es w2 = (Done u, w')"
    by (cases r2) (auto simp: Let_def)
  have "pending es (log (CbClosed a) ?w1)"
    using Cons.prems(3) ka by (auto intro: pending_step)
  with call_Closed_calm[OF c] have "pending es w2" by (auto dest: calm_pending)
  with Cons.IH[OF rest Cons.prems(2)] show ?case .
qed

lemma pending_order:
  assumes "pending es w" and "mset es' = mset es"
  shows "pending es' w"
proof -
  have s: "set es' = set es" using assms(2) by (rule mset_eq_setD)
  have "mset (map snd es') = mset (map snd es)" using assms(2) by simp
  then have "distinct (map snd es') = distinct (map snd es)"
    by (rule mset_eq_imp_distinct_iff)
  with assms(1) s show ?thesis by (simp add: pending_def)
qed

lemma tracked_start:
  "tracked (w0\<lparr>heap := h, nconn := 0, conns := [], trace := []\<rparr>)"
  by (simp add: tracked_def pending_def closed_count_def)

lemma tracked_fields [simp]:
  "tracked (w\<lparr>lastTick := t, delay := d, packet := bs\<rparr>) = tracked w"
  by (simp add: tracked_def pending_def)

section \<open>Sample states\<close>

text \<open>States right after listener set-up, one per build: a poller with descriptor 4,
  a listener on descriptor 3, and a given script.\<close>

definition linux_world :: "sysret list \<Rightarrow> unit world" where
  "linux_world sc =
     \<lparr>heap = (\<lambda>a. no_conn), nconn = 0, conns = [],
      the_poll = Epoll 4 (replicate 64 \<lparr>Events = EPOLLIN, Fd = 0\<rparr>) [],
      packet = replicate 4096 0, lastTick = 0, delay = - 1, user = (), script = sc,
      open_fds = {3, 4}, trace = [], growslice = (\<lambda>old need. max need (2 * old))\<rparr>"

definition bsd_world :: "sysret list \<Rightarrow> unit world" where
  "bsd_world sc =
     \<lparr>heap = (\<lambda>a. no_conn), nconn = 0, conns = [],
      the_poll = Kqueue 4 [] (replicate 64 \<lparr>Ident = 0, Filter = EVFILT_READ, Flags = EV_ADD\<rparr>) [],
      packet = replicate 4096 0, lastTick = 0, delay = - 1, user = (), script = sc,
      open_fds = {3, 4}, trace = [], growslice = (\<lambda>old need. max need (2 * old))\<rparr>"

text \<open>No callback at all, and the one listener of the sample states.\<close>

definition no_events :: "unit Events" where
  "no_events = \<lparr>Serving = None, Opened = None, Closed = None, PreWrite = None,
                 Data = None, Tick = None\<rparr>"

definition one_listener :: "listener list" where
  "one_listener = [\<lparr>lfd = 3, tcp = True\<rparr>]"

text \<open>One connection accepted on descriptor 5, at address 0: its write flag, its
  output buffer and its pending action are given.\<close>

definition live_conn :: "bool \<Rightarrow> byte list \<Rightarrow> Action \<Rightarrow> conn" where
  "live_conn wr bs act = \<lparr>write_flag = wr, fd = 5, oidx = 0, out = bs, out_cap = length bs,
                           action = act, poll = True, saddr = 0\<rparr>"

definition with_conn :: "conn \<Rightarrow> unit world \<Rightarrow> unit world" where
  "with_conn c w = w\<lparr>heap := (heap w)(0 := c), nconn := 1, conns := [(5, 0)],
                     open_fds := insert 5 (open_fds w)\<rparr>"

definition kev :: "int \<Rightarrow> kfilter \<Rightarrow> Kevent_t" where
  "kev k ft = \<lparr>Ident = word_of_int k, Filter = ft, Flags = EV_ADD\<rparr>"

text \<open>A \<^verbatim>\<open>Data\<close> callback that answers every packet with one byte and closes the
  connection: it calls \<^verbatim>\<open>c.Close()\<close> and returns \<^verbatim>\<open>out, None\<close>.\<close>

definition bye_events :: "unit Events" where
  "bye_events = no_events\<lparr>Data := Some (\<lambda>u a bs. (u, [UClose a], [33], None_Action))\<rparr>"

text \<open>A connection with three bytes pending whose peer is gone: the write fails with
  \<open>EPIPE\<close>.\<close>

definition broken_pipe_world :: "unit world" where
  "broken_pipe_world = with_conn (live_conn True [1, 2, 3] None_Action)
                         (bsd_world [Ret (- 1) (Some (Errno 32))])"

text \<open>A tick that returns a given delay and action, and a state on BSD where the first
  wait finds nothing ready and the clock then reads 100.\<close>

definition tick_events :: "duration \<Rightarrow> Action \<Rightarrow> unit Events" where
  "tick_events d act = no_events\<lparr>Tick := Some (\<lambda>u now. (u, [], d, act))\<rparr>"

definition tick_world :: "unit world" where
  "tick_world = (bsd_world [RetKevent 0 None [], RetNow 100])\<lparr>delay := 0\<rparr>"

text \<open>An \<^verbatim>\<open>Opened\<close> callback that greets with two bytes, and the state after one
  iteration on BSD in which a connection on descriptor 5 was accepted.\<close>

definition greet_events :: "unit Events" where
  "greet_events = no_events\<lparr>Opened := Some (\<lambda>u a. (u, [], [72, 73], None_Action))\<rparr>"

definition accepting_world :: "unit world" where
  "accepting_world = bsd_world [RetKevent 1 None [kev 3 EVFILT_READ], Ret 5 None, Ret 0 None]"

definition greeted_world :: "unit world" where
  "greeted_world = snd (loop_iter greet_events one_listener accepting_world)"

text \<open>Two runs on BSD with that callback in which the connection is then reported ready
  for writing. In the first, the first write returns \<open>EAGAIN\<close>; in the second, the
  first write takes one byte, the second returns \<open>EAGAIN\<close> and the third takes two
  bytes. With the error comes the count \<open>-1\<close>, as from Go's \<^verbatim>\<open>syscall.Write\<close>.\<close>

definition blocked_world :: "unit world" where
  "blocked_world = bsd_world
     [RetKevent 1 None [kev 3 EVFILT_READ], Ret 5 None, Ret 0 None,
      RetKevent 1 None [kev 5 EVFILT_WRITE], Ret (- 1) (Some EAGAIN)]"

definition blocked_later_world :: "unit world" where
  "blocked_later_world = bsd_world
     [RetKevent 1 None [kev 3 EVFILT_READ], Ret 5 None, Ret 0 None,
      RetKevent 1 None [kev 5 EVFILT_WRITE], Ret 1 None, Ret (- 1) (Some EAGAIN), Ret 2 None]"

text \<open>An \<^verbatim>\<open>Opened\<close> callback that sends nothing and asks for shutdown, and the state
  after the same iteration with it.\<close>

definition refuse_events :: "unit Events" where
  "refuse_events = no_events\<lparr>Opened := Some (\<lambda>u a. (u, [], [], Shutdown))\<rparr>"

definition refused_world :: "unit world" where
  "refused_world = snd (loop_iter refuse_events one_listener accepting_world)"

text \<open>A \<^verbatim>\<open>Closed\<close> callback that asks for shutdown, and a run on BSD: two connections
  are accepted on descriptors 5 and 6, the first reaches end-of-file and is finalized in
  the loop, which ends Serve with the second still in the map.\<close>

definition stop_on_close :: "unit Events" where
  "stop_on_close = no_events\<lparr>Closed := Some (\<lambda>u a. (u, [], Shutdown))\<rparr>"

definition two_accepts_world :: "unit world" where
  "two_accepts_world = bsd_world
     [RetKevent 2 None [kev 3 EVFILT_READ, kev 3 EVFILT_READ],
      Ret 5 None, Ret 0 None, Ret 6 None, Ret 0 None,
      RetKevent 1 None [kev 5 EVFILT_READ], RetRead 0 None [],
      RetKevent 1 None [kev 5 EVFILT_READ]]"

section \<open>Evaluating the model\<close>

lemmas eval_defs = stop_on_close_def two_accepts_world_def call_Serving_def
  greet_events_def accepting_world_def greeted_world_def refuse_events_def refused_world_def blocked_world_def blocked_later_world_def inserted_def after_insert_def
  tick_events_def tick_world_def adopt_def Time_Sub_def broken_pipe_world_def bye_events_def advance_def wrote_def escalate_def sliceable_def
  live_conn_def with_conn_def kev_def bsd_world_def linux_world_def no_events_def one_listener_def
  dispatch_def close_branch_def write_branch_def read_branch_def flush_def accept_path_def
  andThen_def sys_Close_def log_def upd_def sys_ret_def sys_read_def sys_kevent_def sys_epoll_def sys_now_def
  loop_iter_def wait_def tick_step_def wait_panics_def write_fails_def stored_def Let_def
  modRead_def modReadWrite_def addRead_def kchange_def EpollCtl_def conn_Write_def conn_Close_def
  call_Data_def call_Closed_def call_Opened_def call_PreWrite_def call_Tick_def returned_out_def append_out_def
  new_conn_def no_conn_def Accept_def SetNonblock_def setKeepAlive_def SetsockoptInt_def

section \<open>The poller's wait\<close>

text \<open>The answer the script holds for the next \<^verbatim>\<open>wait\<close>: the count and the error of
  \<^verbatim>\<open>EpollWait\<close> on Linux, of \<^verbatim>\<open>Kevent\<close> on BSD.\<close>

definition wait_answer :: "'u world \<Rightarrow> (int \<times> errno option) option" where
  "wait_answer w = (case (the_poll w, script w) of
       (Epoll pf evs evf, RetEpoll n e new # rest) \<Rightarrow> Some (n, e)
     | (Kqueue pf ch evs evf, RetKevent n e new # rest) \<Rightarrow> Some (n, e)
     | _ \<Rightarrow> None)"

lemma collect_none: "n \<le> i \<Longrightarrow> collect i n ids acc = (True, acc)"
  by (simp add: collect.simps)

lemma wait_interrupted:
  assumes "wait_answer w = Some (n, Some EINTR)" and "n \<le> 0"
  shows "\<exists>w1. wait t w = (Done [], w1) \<and> heap w1 = heap w \<and> conns w1 = conns w \<and> nconn w1 = nconn w"
  using assms
  by (auto simp: wait_answer_def wait_def sys_epoll_def sys_kevent_def log_def andThen_def
        wait_panics_def collect_none Let_def
      split: poller.splits list.splits sysret.splits)

lemma wait_fatal:
  assumes "wait_answer w = Some (n, Some e)" and "e \<noteq> EINTR"
  shows "\<exists>w1. wait t w = (Stop (Panic (PanicErr e)), w1)"
  using assms
  by (auto simp: wait_answer_def wait_def sys_epoll_def sys_kevent_def log_def andThen_def
        wait_panics_def Let_def
      split: poller.splits list.splits sysret.splits)

text \<open>Claim C10. When the wait of the poller is interrupted (\<open>EINTR\<close>) it returns the
  empty list and no error, whatever the timeout, and the iteration of the loop goes on
  with the tick alone; any other error of the wait is fatal: \<^verbatim>\<open>wait\<close> panics with it
  and so does the loop. Both hold on Linux and on BSD. The system call wrappers of Go return the count \<open>-1\<close> together
  with an error, which is the hypothesis \<open>n \<le> 0\<close>.\<close>

theorem C10_wait_EINTR:
  "wait_answer w = Some (n, Some e) \<Longrightarrow>
     (e = EINTR \<and> n \<le> 0 \<longrightarrow>
        (\<exists>w1. wait t w = (Done [], w1) \<and> heap w1 = heap w \<and> conns w1 = conns w) \<and>
        (\<exists>w1. wait (delay w) w = (Done [], w1) \<and>
              loop_iter ev lns w = andThen (tick_step ev w1) (\<lambda>ret w3. (Done ret, w3)))) \<and>
     (e \<noteq> EINTR \<longrightarrow>
        (\<exists>w1. wait t w = (Stop (Panic (PanicErr e)), w1)) \<and>
        (\<exists>w1. serve_loop ev lns w = (Stop (Panic (PanicErr e)), w1)))"
proof -
  assume a: "wait_answer w = Some (n, Some e)"
  have p1: "\<exists>w1. wait t w = (Done [], w1) \<and> heap w1 = heap w \<and> conns w1 = conns w"
    if "e = EINTR \<and> n \<le> 0"
    using wait_interrupted[of w n t] a that by auto
  have p2: "\<exists>w1. wait (delay w) w = (Done [], w1) \<and>
              loop_iter ev lns w = andThen (tick_step ev w1) (\<lambda>ret w3. (Done ret, w3))"
    if "e = EINTR \<and> n \<le> 0"
  proof -
    from wait_interrupted[of w n "delay w"] a that
    obtain w1 where w1: "wait (delay w) w = (Done [], w1)" by auto
    have "loop_iter ev lns w = andThen (tick_step ev w1) (\<lambda>ret w3. (Done ret, w3))"
      by (auto simp: loop_iter_def w1 andThen_def split: prod.splits res.splits)
    with w1 show ?thesis by blast
  qed
  have p3: "\<exists>w1. wait t w = (Stop (Panic (PanicErr e)), w1)" if "e \<noteq> EINTR"
    using wait_fatal[OF a that] .
  have p4: "\<exists>w1. serve_loop ev lns w = (Stop (Panic (PanicErr e)), w1)" if "e \<noteq> EINTR"
  proof -
    from wait_fatal[OF a that, of "delay w"]
    obtain w1 where w1: "wait (delay w) w = (Stop (Panic (PanicErr e)), w1)" by auto
    have "loop_iter ev lns w = (Stop (Panic (PanicErr e)), w1)"
      by (simp add: loop_iter_def w1 andThen_def)
    then have "serve_loop ev lns w = (Stop (Panic (PanicErr e)), w1)"
      by (simp add: serve_loop.simps[of ev lns w])
    then show ?thesis by blast
  qed
  from p1 p2 p3 p4 show ?thesis by blast
qed

theorem C10_wait_EINTR_witness:
  "wait_answer (linux_world [RetEpoll (- 1) (Some EINTR) []]) = Some (- 1, Some EINTR) \<and>
   (\<exists>w1. wait (delay (linux_world [RetEpoll (- 1) (Some EINTR) []]))
            (linux_world [RetEpoll (- 1) (Some EINTR) []]) = (Done [], w1)) \<and>
   wait_answer (bsd_world [RetKevent (- 1) (Some (Errno 9)) []]) = Some (- 1, Some (Errno 9)) \<and>
   (\<exists>w1. serve_loop no_events one_listener (bsd_world [RetKevent (- 1) (Some (Errno 9)) []])
            = (Stop (Panic (PanicErr (Errno 9))), w1))"
proof -
  have a: "wait_answer (linux_world [RetEpoll (- 1) (Some EINTR) []]) = Some (- 1, Some EINTR)"
    by (simp add: wait_answer_def linux_world_def)
  have b: "wait_answer (bsd_world [RetKevent (- 1) (Some (Errno 9)) []]) = Some (- 1, Some (Errno 9))"
    by (simp add: wait_answer_def bsd_world_def)
  from C10_wait_EINTR[OF a, of "delay (linux_world [RetEpoll (- 1) (Some EINTR) []])"
        no_events one_listener]
    C10_wait_EINTR[OF b, of 0 no_events one_listener] a b
  show ?thesis by auto
qed

section \<open>A ready descriptor that is not in the map\<close>

lemma dispatch_missing_conn:
  "find_listener k 0 lns = None \<Longrightarrow> map_of (conns w) k = None \<Longrightarrow>
     dispatch ev lns k w = (Stop (Panic NilDereference), w)"
  by (simp add: dispatch_def)

text \<open>Claim C1 fails on the code. On BSD one batch can report a descriptor twice, once
  per filter. Here the connection on descriptor 5 has a pending \<open>Close\<close> and nothing to
  write: the first event finalizes it (the descriptor is closed, the entry removed), and
  at the second \<^verbatim>\<open>conns[fd]\<close> is nil, so the iteration does not skip the event but
  panics.\<close>

theorem C1_missing_conn_panics:
  "fst (loop_iter no_events one_listener
          (with_conn (live_conn True [] Close)
             (bsd_world [RetKevent 2 None [kev 5 EVFILT_READ, kev 5 EVFILT_WRITE]])))
     = Stop (Panic NilDereference) \<and>
   rev (trace (snd (loop_iter no_events one_listener
          (with_conn (live_conn True [] Close)
             (bsd_world [RetKevent 2 None [kev 5 EVFILT_READ, kev 5 EVFILT_WRITE]])))))
     = [SysKevent 4 [] None, SysClose 5]"
  by (simp add: eval_defs collect.simps)

section \<open>Shutdown at the finalization of a connection\<close>

text \<open>Claim C4 fails on the code when no \<^verbatim>\<open>Closed\<close> callback is set. The connection
  on descriptor 5 is drained and has the pending action \<open>Shutdown\<close>; the iteration
  closes it and removes it from the map, and the loop goes on (\<open>Done False\<close>) instead of
  ending.\<close>

theorem C4_shutdown_without_Closed:
  "fst (loop_iter no_events one_listener
          (with_conn (live_conn True [] Shutdown)
             (bsd_world [RetKevent 1 None [kev 5 EVFILT_WRITE]]))) = Done False \<and>
   conns (snd (loop_iter no_events one_listener
          (with_conn (live_conn True [] Shutdown)
             (bsd_world [RetKevent 1 None [kev 5 EVFILT_WRITE]])))) = [] \<and>
   rev (trace (snd (loop_iter no_events one_listener
          (with_conn (live_conn True [] Shutdown)
             (bsd_world [RetKevent 1 None [kev 5 EVFILT_WRITE]])))))
     = [SysKevent 4 [] None, SysClose 5]"
  by (simp add: eval_defs collect.simps)

section \<open>The pending action after a callback\<close>

text \<open>Claim C5 fails on the code. \<^verbatim>\<open>c.Close()\<close> records \<open>Close\<close>; when the \<^verbatim>\<open>Data\<close>
  callback that made this call returns a non-empty output with the action \<open>None\<close>, the
  loop stores \<open>None\<close> over the recorded \<open>Close\<close>.\<close>

theorem C5_Close_replaced_by_None:
  "action (heap (snd (conn_Close 0 (with_conn (live_conn False [] None_Action) (bsd_world [])))) 0)
     = Close \<and>
   fst (dispatch bye_events one_listener 5
          (with_conn (live_conn False [] None_Action) (bsd_world [RetRead 2 None [1, 2]])))
     = Done Continue \<and>
   rev (trace (snd (dispatch bye_events one_listener 5
          (with_conn (live_conn False [] None_Action) (bsd_world [RetRead 2 None [1, 2]])))))
     = [SysRead 5, CbData 0 [1, 2]] \<and>
   action (heap (snd (dispatch bye_events one_listener 5
          (with_conn (live_conn False [] None_Action) (bsd_world [RetRead 2 None [1, 2]])))) 0)
     = None_Action"
  by (simp add: eval_defs bye_events_def)

section \<open>Write with an empty slice\<close>

text \<open>Claim C7 fails on the code. \<^verbatim>\<open>Write\<close> with an empty slice on a read-only
  connection with no pending action sets the write flag and registers the descriptor
  for write readiness: a change in the list of the BSD poller, a call of \<^verbatim>\<open>EpollCtl\<close>
  on Linux.\<close>

theorem C7_Write_empty_registers:
  "write_flag (heap (snd (conn_Write 0 []
       (with_conn (live_conn False [] None_Action) (bsd_world [])))) 0) = True \<and>
   the_poll (snd (conn_Write 0 []
       (with_conn (live_conn False [] None_Action) (bsd_world []))))
     = Kqueue 4 [\<lparr>Ident = 5, Filter = EVFILT_WRITE, Flags = EV_ADD\<rparr>]
         (replicate 64 \<lparr>Ident = 0, Filter = EVFILT_READ, Flags = EV_ADD\<rparr>) [] \<and>
   trace (snd (conn_Write 0 []
       (with_conn (live_conn False [] None_Action) (linux_world [Ret 0 None]))))
     = [SysEpollCtl EPOLL_CTL_MOD 5 \<lparr>Events = EPOLLIN_EPOLLOUT, Fd = 5\<rparr>]"
  by (simp add: eval_defs)

section \<open>The drain of pending output\<close>

text \<open>After a write that returns \<open>EAGAIN\<close> the cursor is moved by the count returned like
  after any other, and while it is below the length of the buffer the loop goes into its
  next round.\<close>

lemma drain_goes_on_after_EAGAIN:
  assumes "script w = Ret n (Some EAGAIN) # rest" and "sliceable (heap w a)"
    and "oidx (heap w a) + n < int (length (out (heap w a)))"
  shows "drain a w = drain a (advance a n (wrote a w))"
    and "script (advance a n (wrote a w)) = rest"
    and "oidx (heap (advance a n (wrote a w)) a) = oidx (heap w a) + n"
  using assms by (auto simp: drain_EAGAIN script_wrote) (auto simp: advance_def wrote_def upd_def log_def)

text \<open>Claim C2 fails on the code: the drain does not stop when a write returns \<open>EAGAIN\<close>.
  The test for \<open>EAGAIN\<close> keeps the loop from breaking, the count returned with the error
  (\<open>-1\<close>) is added to the cursor, and the loop goes on. In both runs a connection is
  accepted on descriptor 5, \<^verbatim>\<open>Opened\<close> returns two bytes to send, and the descriptor is
  reported ready for writing. If the first write returns \<open>EAGAIN\<close>, the cursor becomes
  \<open>-1\<close> and the slice expression \<^verbatim>\<open>c.out[c.oidx:]\<close> of the next round panics: \<^verbatim>\<open>Serve\<close>
  ends in a panic, after one write. If the first write takes one byte and the second
  returns \<open>EAGAIN\<close>, the cursor steps back to 0 and the loop writes a third time in the
  same drain, from the first byte again.\<close>

theorem C2_EAGAIN_moves_cursor_back:
  "fst (Serve greet_events id one_listener blocked_world) = Panicked SliceBounds \<and>
   rev (trace (snd (Serve greet_events id one_listener blocked_world))) =
     [SysKevent 4 [] None, SysAccept 3, SysSetNonblock 5, CbOpened 0,
      SysKevent 4 [\<lparr>Ident = 5, Filter = EVFILT_READ, Flags = EV_ADD\<rparr>,
                   \<lparr>Ident = 5, Filter = EVFILT_WRITE, Flags = EV_ADD\<rparr>] None,
      SysWrite 5 [72, 73], SysClose 5] \<and>
   oidx (heap (snd (Serve greet_events id one_listener blocked_world)) 0) = - 1 \<and>
   map_option (\<lambda>w. (rev (trace w), oidx (heap w 0), out (heap w 0)))
     (iterations (Suc (Suc 0)) greet_events one_listener blocked_later_world) =
     Some ([SysKevent 4 [] None, SysAccept 3, SysSetNonblock 5, CbOpened 0,
            SysKevent 4 [\<lparr>Ident = 5, Filter = EVFILT_READ, Flags = EV_ADD\<rparr>,
                         \<lparr>Ident = 5, Filter = EVFILT_WRITE, Flags = EV_ADD\<rparr>] None,
            SysWrite 5 [72, 73], SysWrite 5 [73], SysWrite 5 [72, 73]], 0, [])"
  by (simp add: Serve_def serve_loop.simps eval_defs collect.simps drain.simps)

text \<open>Claim C8. When the branch for pending output finishes, the cursor is 0 and the
  buffer is empty: released (capacity 0) when its capacity exceeded 4096, truncated with
  its capacity kept otherwise. This holds however the write loop was left; after a write
  error other than \<open>EAGAIN\<close> the branch does finish, with the bytes that were not
  written dropped and no further write. The same holds for the whole step of a ready
  connection with pending output, where \<^verbatim>\<open>PreWrite\<close> runs first.\<close>

theorem C8_drain_branch_discards:
  "(flush a w = (Done u, w') \<longrightarrow>
      oidx (heap w' a) = 0 \<and> out (heap w' a) = [] \<and>
      out_cap (heap w' a) = (if 4096 < out_cap (heap w a) then 0 else out_cap (heap w a))) \<and>
   (script w = Ret n (Some e) # rest \<and> e \<noteq> EAGAIN \<and> sliceable (heap w a) \<longrightarrow>
      (\<exists>w1. flush a w = (Done (), w1) \<and> oidx (heap w1 a) = 0 \<and> out (heap w1 a) = [] \<and>
            script w1 = rest \<and>
            trace w1 = SysWrite (fd (heap w a)) (drop (nat (oidx (heap w a))) (out (heap w a)))
                         # trace w)) \<and>
   (find_listener k 0 lns = None \<and> map_of (conns w) k = Some a \<and>
      0 < int (length (out (heap w a))) - oidx (heap w a) \<and>
      dispatch ev lns k w = (Done c, w') \<longrightarrow>
      c = Continue \<and> oidx (heap w' a) = 0 \<and> out (heap w' a) = [] \<and>
      out_cap (heap w' a) \<le> 4096)"
proof -
  have p1: "oidx (heap w' a) = 0 \<and> out (heap w' a) = [] \<and>
      out_cap (heap w' a) = (if 4096 < out_cap (heap w a) then 0 else out_cap (heap w a))"
    if "flush a w = (Done u, w')"
    using that by (rule flush_result)
  have p2: "\<exists>w1. flush a w = (Done (), w1) \<and> oidx (heap w1 a) = 0 \<and> out (heap w1 a) = [] \<and>
            script w1 = rest \<and>
            trace w1 = SysWrite (fd (heap w a)) (drop (nat (oidx (heap w a))) (out (heap w a)))
                         # trace w"
    if "script w = Ret n (Some e) # rest \<and> e \<noteq> EAGAIN \<and> sliceable (heap w a)"
    using that flush_write_error by blast
  have p3: "c = Continue \<and> oidx (heap w' a) = 0 \<and> out (heap w' a) = [] \<and>
      out_cap (heap w' a) \<le> 4096"
    if h: "find_listener k 0 lns = None \<and> map_of (conns w) k = Some a \<and>
      0 < int (length (out (heap w a))) - oidx (heap w a) \<and>
      dispatch ev lns k w = (Done c, w')"
  proof -
    from h have "andThen (write_branch ev a w) (\<lambda>_ w1. (Done Continue, w1)) = (Done c, w')"
      by (auto simp: dispatch_def)
    then obtain u where "write_branch ev a w = (Done u, w')" "c = Continue"
      by (auto elim!: andThenE)
    then show ?thesis using write_branch_result by blast
  qed
  from p1 p2 p3 show ?thesis by blast
qed

theorem C8_drain_branch_discards_witness:
  "script broken_pipe_world = Ret (- 1) (Some (Errno 32)) # [] \<and> Errno 32 \<noteq> EAGAIN \<and>
   sliceable (heap broken_pipe_world 0) \<and>
   (\<exists>w1. flush 0 broken_pipe_world = (Done (), w1) \<and> oidx (heap w1 0) = 0 \<and>
         out (heap w1 0) = [] \<and> script w1 = [] \<and>
         trace w1 = [SysWrite 5 [1, 2, 3]])"
  using C8_drain_branch_discards[of 0 broken_pipe_world _ _ "- 1" "Errno 32" "[]"]
  by (simp add: eval_defs)

section \<open>The tick\<close>

lemma tick_fires:
  assumes "Tick ev = Some f" and "sys_now w = (Done now, w1)"
    and "delay w1 < Time_Sub now (lastTick w1)"
    and "call_Tick f now (w1\<lparr>lastTick := now\<rparr>) = (Done (d, act), w2)"
  shows "tick_step ev w = (Done (act = Shutdown), adopt d w2)"
  using assms by (simp add: tick_step_def andThen_def adopt_def)

lemma loop_iter_tick:
  assumes "wait (delay w0) w0 = (Done fds, wr)" and "ready_loop ev lns fds wr = (Done c, w)"
    and "tick_step ev w = (Done ret, w3)"
  shows "loop_iter ev lns w0 = (Done (ret \<or> c = Break), w3)"
  using assms by (simp add: loop_iter_def andThen_def)

text \<open>Claim C9. When the tick fires and returns the delay \<open>d\<close> and an action, the
  loop adopts \<open>max 0 d\<close>: a negative delay becomes 0, which is the timeout of the next
  wait. If the action is \<open>Shutdown\<close>, the loop returns nil right there, in the state the
  tick left; otherwise (and unless a finalized connection has set the shutdown flag)
  the loop goes on from that state.\<close>

theorem C9_tick_adopted:
  "Tick ev = Some f \<and> sys_now w = (Done now, w1) \<and> delay w1 < Time_Sub now (lastTick w1) \<and>
   call_Tick f now (w1\<lparr>lastTick := now\<rparr>) = (Done (d, act), w2) \<longrightarrow>
     tick_step ev w = (Done (act = Shutdown), adopt d w2) \<and>
     delay (adopt d w2) = max 0 d \<and>
     (wait (delay w0) w0 = (Done fds, wr) \<and> ready_loop ev lns fds wr = (Done c, w) \<longrightarrow>
        (act = Shutdown \<longrightarrow> serve_loop ev lns w0 = (Done (), adopt d w2)) \<and>
        (act \<noteq> Shutdown \<and> c = Continue \<longrightarrow>
           serve_loop ev lns w0 = serve_loop ev lns (adopt d w2)))"
proof (intro impI, elim conjE)
  assume a: "Tick ev = Some f" "sys_now w = (Done now, w1)"
    "delay w1 < Time_Sub now (lastTick w1)"
    "call_Tick f now (w1\<lparr>lastTick := now\<rparr>) = (Done (d, act), w2)"
  have t: "tick_step ev w = (Done (act = Shutdown), adopt d w2)"
    using a by (rule tick_fires)
  have l: "serve_loop ev lns w0 = (Done (), adopt d w2)"
    if "wait (delay w0) w0 = (Done fds, wr)" "ready_loop ev lns fds wr = (Done c, w)" "act = Shutdown"
    using loop_iter_tick[OF that(1,2) t] that(3)
    by (simp add: serve_loop.simps[of ev lns w0])
  have m: "serve_loop ev lns w0 = serve_loop ev lns (adopt d w2)"
    if "wait (delay w0) w0 = (Done fds, wr)" "ready_loop ev lns fds wr = (Done c, w)"
       "act \<noteq> Shutdown" "c = Continue"
    using loop_iter_tick[OF that(1,2) t] that(3,4)
    by (simp add: serve_loop.simps[of ev lns w0])
  from t l m show "tick_step ev w = (Done (act = Shutdown), adopt d w2) \<and>
     delay (adopt d w2) = max 0 d \<and>
     (wait (delay w0) w0 = (Done fds, wr) \<and> ready_loop ev lns fds wr = (Done c, w) \<longrightarrow>
        (act = Shutdown \<longrightarrow> serve_loop ev lns w0 = (Done (), adopt d w2)) \<and>
        (act \<noteq> Shutdown \<and> c = Continue \<longrightarrow>
           serve_loop ev lns w0 = serve_loop ev lns (adopt d w2)))"
    by (auto simp: adopt_def)
qed


theorem C9_tick_adopted_witness:
  "Tick (tick_events (- 10) Shutdown) = Some (\<lambda>u now. (u, [], - 10, Shutdown)) \<and>
   fst (sys_now (snd (wait (delay tick_world) tick_world))) = Done 100 \<and>
   fst (serve_loop (tick_events (- 10) Shutdown) one_listener tick_world) = Done () \<and>
   delay (snd (serve_loop (tick_events (- 10) Shutdown) one_listener tick_world)) = 0"
  using C9_tick_adopted[of "tick_events (- 10) Shutdown" "\<lambda>u now. (u, [], - 10, Shutdown)"
      "snd (wait (delay tick_world) tick_world)" 100
      "snd (sys_now (snd (wait (delay tick_world) tick_world)))" "- 10" Shutdown
      "snd (call_Tick (\<lambda>u now. (u, [], - 10, Shutdown)) 100
             ((snd (sys_now (snd (wait (delay tick_world) tick_world))))\<lparr>lastTick := 100\<rparr>))"
      tick_world "[]" "snd (wait (delay tick_world) tick_world)" one_listener Continue]
  by (simp add: eval_defs collect.simps)

section \<open>The write flag\<close>

text \<open>Claim C3, as amended. After any number of iterations of the loop, every
  connection in the map has its cursor at 0; its write flag is set if its output buffer
  holds unsent bytes or its pending action is \<open>Shutdown\<close>; and, as long as user code
  never calls \<^verbatim>\<open>Write\<close> with an empty slice, a set write flag comes with unsent bytes or
  a pending action other than \<open>None\<close>. (Only that a pending \<open>Close\<close> comes with the flag is
  no invariant of the code.)\<close>

theorem C3_unsent_implies_write_flag:
  "heap_ok (polite ev) w0 \<Longrightarrow> iterations n ev lns w0 = Some w \<Longrightarrow> (k, a) \<in> set (conns w) \<Longrightarrow>
     oidx (heap w a) = 0 \<and>
     (0 < int (length (out (heap w a))) - oidx (heap w a) \<or> action (heap w a) = Shutdown
        \<longrightarrow> write_flag (heap w a)) \<and>
     (polite ev \<longrightarrow> write_flag (heap w a) \<longrightarrow>
        0 < int (length (out (heap w a))) - oidx (heap w a) \<or> action (heap w a) \<noteq> None_Action)"
proof -
  assume a: "heap_ok (polite ev) w0" and b: "iterations n ev lns w0 = Some w"
  have "polite ev \<longrightarrow> polite ev" by simp
  from iterations_ok[OF b this a] have "conn_ok (polite ev) (heap w a)"
    by (simp add: heap_ok_def)
  then show ?thesis by (auto simp: conn_ok_def)
qed

theorem C3_unsent_implies_write_flag_witness:
  "polite greet_events \<and>
   heap_ok (polite greet_events) accepting_world \<and>
   iterations (Suc 0) greet_events one_listener accepting_world = Some greeted_world \<and>
   (5, 0) \<in> set (conns greeted_world) \<and>
   out (heap greeted_world 0) = [72, 73] \<and>
   oidx (heap greeted_world 0) = 0 \<and>
   write_flag (heap greeted_world 0) \<and>
   polite refuse_events \<and>
   heap_ok (polite refuse_events) accepting_world \<and>
   iterations (Suc 0) refuse_events one_listener accepting_world = Some refused_world \<and>
   (5, 0) \<in> set (conns refused_world) \<and>
   out (heap refused_world 0) = [] \<and>
   action (heap refused_world 0) = Shutdown \<and>
   write_flag (heap refused_world 0)"
proof -
  have p: "polite greet_events"
    by (simp add: polite_def greet_events_def no_events_def)
  have a: "heap_ok (polite greet_events) accepting_world"
    by (simp add: heap_ok_def conn_ok_def no_conn_def accepting_world_def bsd_world_def)
  have b: "iterations (Suc 0) greet_events one_listener accepting_world = Some greeted_world"
    by (simp add: eval_defs collect.simps)
  have c: "(5, 0) \<in> set (conns greeted_world)"
    by (simp add: eval_defs collect.simps)
  have d: "out (heap greeted_world 0) = [72, 73]"
    by (simp add: eval_defs collect.simps)
  have p': "polite refuse_events"
    by (simp add: polite_def refuse_events_def no_events_def)
  have a': "heap_ok (polite refuse_events) accepting_world"
    by (simp add: heap_ok_def conn_ok_def no_conn_def accepting_world_def bsd_world_def)
  have b': "iterations (Suc 0) refuse_events one_listener accepting_world = Some refused_world"
    by (simp add: eval_defs collect.simps)
  have c': "(5, 0) \<in> set (conns refused_world)"
    by (simp add: eval_defs collect.simps)
  have d': "out (heap refused_world 0) = []" "action (heap refused_world 0) = Shutdown"
    by (simp_all add: eval_defs collect.simps)
  from C3_unsent_implies_write_flag[OF a b c] C3_unsent_implies_write_flag[OF a' b' c']
    p a b c d p' a' b' c' d'
  show ?thesis by simp
qed

text \<open>Claim C3 as stated fails. A read that returns 0 bytes records \<open>Close\<close> and leaves
  the write flag as it is: after the iteration the connection is in the map, its
  pending action is \<open>Close\<close> and its write flag is false.\<close>

theorem C3_flag_counterexample:
  "fst (loop_iter no_events one_listener
          (with_conn (live_conn False [] None_Action)
             (bsd_world [RetKevent 1 None [kev 5 EVFILT_READ], RetRead 0 None []]))) = Done False \<and>
   conns (snd (loop_iter no_events one_listener
          (with_conn (live_conn False [] None_Action)
             (bsd_world [RetKevent 1 None [kev 5 EVFILT_READ], RetRead 0 None []])))) = [(5, 0)] \<and>
   action (heap (snd (loop_iter no_events one_listener
          (with_conn (live_conn False [] None_Action)
             (bsd_world [RetKevent 1 None [kev 5 EVFILT_READ], RetRead 0 None []])))) 0) = Close \<and>
   write_flag (heap (snd (loop_iter no_events one_listener
          (with_conn (live_conn False [] None_Action)
             (bsd_world [RetKevent 1 None [kev 5 EVFILT_READ], RetRead 0 None []])))) 0) = False"
  by (simp add: eval_defs collect.simps)

section \<open>\<^verbatim>\<open>Closed\<close> is called once for every connection\<close>

text \<open>Claim C6. With a \<^verbatim>\<open>Closed\<close> callback set, when \<^verbatim>\<open>Serve\<close> has ended (it returned,
  or it panicked in the loop and its deferred function ran to its end), \<^verbatim>\<open>Closed\<close> was
  called exactly once for every connection that was created and put into the map:
  in the loop for those finalized there, which were removed from the map first, and in
  the deferred function for those still in the map. This holds for every order in which
  \<^verbatim>\<open>range\<close> may go through the map.\<close>

theorem C6_closed_exactly_once:
  assumes "Closed ev = Some f" and "\<forall>xs. mset (order xs) = mset xs"
    and "Serve ev order lns w0 = (res, w)" and "res = Returned \<or> (\<exists>q. res = Panicked q)"
  shows "\<forall>a < nconn w. closed_count a (trace w) = 1"
proof -
  let ?w = "w0\<lparr>heap := (\<lambda>a. no_conn), nconn := 0, conns := [], trace := []\<rparr>"
  let ?enter = "\<lambda>w. serve_loop ev lns
                     (w\<lparr>lastTick := 0, delay := (if Tick ev \<noteq> None then 0 else - 1),
                        packet := replicate 4096 0\<rparr>)"
  let ?run = "case Serving ev of
                 None \<Rightarrow> ?enter ?w
               | Some g \<Rightarrow>
                   andThen (call_Serving g ?w)
                     (\<lambda>act w1. if act = Shutdown then (Done (), w1) else ?enter w1)"
  obtain r w1 where run: "?run = (r, w1)" by (cases ?run)
  have t0: "tracked ?w" by (rule tracked_start)
  have enter: "\<And>v t d bs r' v'.
      serve_loop ev lns (v\<lparr>lastTick := t, delay := d, packet := bs\<rparr>) = (r', v') \<Longrightarrow>
      tracked v \<Longrightarrow> tracked v'"
    using assms(1) by (auto dest: serve_loop_tracked)
  have t1: "tracked w1"
  proof (cases "Serving ev")
    case None
    with run have "?enter ?w = (r, w1)" by simp
    then show ?thesis using t0 by (rule enter)
  next
    case (Some g)
    with run have "andThen (call_Serving g ?w)
                     (\<lambda>act w1. if act = Shutdown then (Done (), w1) else ?enter w1) = (r, w1)"
      by simp
    then show ?thesis
    proof (cases rule: andThenE)
      case (1 s)
      with t0 show ?thesis by (auto dest: call_Serving_calm calm_tracked)
    next
      case (2 act v)
      then have tv: "tracked v" using t0 by (auto dest: call_Serving_calm calm_tracked)
      from 2(2) tv show ?thesis by (auto split: if_splits dest: enter)
    qed
  qed
  have S: "Serve ev order lns w0 =
      (case (r, w1) of
           (Stop OffScript, w1) \<Rightarrow> (Unfinished, w1)
         | (r, w1) \<Rightarrow>
             (case teardown ev (order (conns w1)) w1 of
                (Done u, w2) \<Rightarrow>
                  (case r of Stop (Panic q) \<Rightarrow> (Panicked q, w2) | _ \<Rightarrow> (Returned, w2))
              | (Stop (Panic q), w2) \<Rightarrow> (PanickedInDefer q, w2)
              | (Stop OffScript, w2) \<Rightarrow> (Unfinished, w2)))"
    unfolding Serve_def Let_def run[symmetric] ..
  obtain rt w2 where td: "teardown ev (order (conns w1)) w1 = (rt, w2)"
    by (cases "teardown ev (order (conns w1)) w1")
  from S assms(3,4) td obtain u where "rt = Done u" "w = w2"
    by (auto split: res.splits stop.splits panic.splits)
  with td have td': "teardown ev (order (conns w1)) w1 = (Done u, w)" by simp
  have "pending (conns w1) w1" using t1 by (simp add: tracked_def)
  then have "pending (order (conns w1)) w1"
    using assms(2) by (auto intro: pending_order)
  with teardown_pending[OF td' assms(1)] have "pending [] w" .
  then show ?thesis by (simp add: pending_def)
qed


theorem C6_closed_exactly_once_witness:
  "Closed stop_on_close = Some (\<lambda>u a. (u, [], Shutdown)) \<and>
   fst (Serve stop_on_close id one_listener two_accepts_world) = Returned \<and>
   nconn (snd (Serve stop_on_close id one_listener two_accepts_world)) = 2 \<and>
   closed_count 0 (trace (snd (Serve stop_on_close id one_listener two_accepts_world))) = 1 \<and>
   closed_count 1 (trace (snd (Serve stop_on_close id one_listener two_accepts_world))) = 1 \<and>
   rev (trace (snd (Serve stop_on_close id one_listener two_accepts_world))) =
     [SysKevent 4 [] None, SysAccept 3, SysSetNonblock 5, SysAccept 3, SysSetNonblock 6,
      SysKevent 4 [\<lparr>Ident = 5, Filter = EVFILT_READ, Flags = EV_ADD\<rparr>,
                   \<lparr>Ident = 6, Filter = EVFILT_READ, Flags = EV_ADD\<rparr>] None,
      SysRead 5, SysKevent 4 [] None, SysClose 5, CbClosed 0, SysClose 6, CbClosed 1]"
proof -
  have c: "Closed stop_on_close = Some (\<lambda>u a. (u, [], Shutdown))"
    by (simp add: stop_on_close_def no_events_def)
  have r: "fst (Serve stop_on_close id one_listener two_accepts_world) = Returned"
    by (simp add: Serve_def serve_loop.simps eval_defs stop_on_close_def two_accepts_world_def
        collect.simps call_Serving_def)
  have n: "nconn (snd (Serve stop_on_close id one_listener two_accepts_world)) = 2"
    by (simp add: Serve_def serve_loop.simps eval_defs stop_on_close_def two_accepts_world_def
        collect.simps call_Serving_def)
  have t: "rev (trace (snd (Serve stop_on_close id one_listener two_accepts_world))) =
     [SysKevent 4 [] None, SysAccept 3, SysSetNonblock 5, SysAccept 3, SysSetNonblock 6,
      SysKevent 4 [\<lparr>Ident = 5, Filter = EVFILT_READ, Flags = EV_ADD\<rparr>,
                   \<lparr>Ident = 6, Filter = EVFILT_READ, Flags = EV_ADD\<rparr>] None,
      SysRead 5, SysKevent 4 [] None, SysClose 5, CbClosed 0, SysClose 6, CbClosed 1]"
    by (simp add: Serve_def serve_loop.simps eval_defs stop_on_close_def two_accepts_world_def
        collect.simps call_Serving_def)
  have "\<forall>a < nconn (snd (Serve stop_on_close id one_listener two_accepts_world)).
          closed_count a (trace (snd (Serve stop_on_close id one_listener two_accepts_world))) = 1"
    by (rule C6_closed_exactly_once[OF c, of id one_listener two_accepts_world Returned])
       (simp_all add: r[symmetric])
  with n have "closed_count 0 (trace (snd (Serve stop_on_close id one_listener two_accepts_world))) = 1"
    "closed_count 1 (trace (snd (Serve stop_on_close id one_listener two_accepts_world))) = 1"
    by simp_all
  with c r n t show ?thesis by simp
qed

end
